theory Spec2Isabelle
  imports Complex_Main "HOL-Library.Multiset"
begin

section \<open>Characters and strings\<close>

text \<open>
  Python strings are modelled as \<^typ>\<open>string\<close>, one \<^typ>\<open>char\<close> per code point, for text in
  the ASCII range. The classes below are Python's on that range: \<^verbatim>\<open>str.isspace\<close> (which is
  also what \<^verbatim>\<open>\s\<close> and \<^verbatim>\<open>str.strip()\<close> use) holds for the six characters
  \<^verbatim>\<open>" \t\n\v\f\r"\<close> and for the four separators \<^verbatim>\<open>0x1C..0x1F\<close>; the word characters
  of \<^verbatim>\<open>\w\<close> and \<^verbatim>\<open>\b\<close> are letters, digits and the underscore. A character outside
  ASCII belongs to no class and has no case in this model.
\<close>

definition ws_chars :: "char list" where
  "ws_chars = [CHR 0x20, CHR 0x09, CHR 0x0A, CHR 0x0B, CHR 0x0C, CHR 0x0D,
               CHR 0x1C, CHR 0x1D, CHR 0x1E, CHR 0x1F]"

definition digit_chars :: "char list" where
  "digit_chars = ''0123456789''"

definition lower_chars :: "char list" where
  "lower_chars = ''abcdefghijklmnopqrstuvwxyz''"

definition upper_chars :: "char list" where
  "upper_chars = ''ABCDEFGHIJKLMNOPQRSTUVWXYZ''"

definition word_chars :: "char list" where
  "word_chars = lower_chars @ upper_chars @ digit_chars @ ''_''"

definition is_space :: "char \<Rightarrow> bool" where
  "is_space c = (c \<in> set ws_chars)"

definition is_word :: "char \<Rightarrow> bool" where
  "is_word c = (c \<in> set word_chars)"

definition lower :: "char \<Rightarrow> char" where
  "lower c = (case map_of (zip upper_chars lower_chars) c of Some l \<Rightarrow> l | None \<Rightarrow> c)"

definition upper :: "char \<Rightarrow> char" where
  "upper c = (case map_of (zip lower_chars upper_chars) c of Some u \<Rightarrow> u | None \<Rightarrow> c)"

text \<open>\<^verbatim>\<open>s.strip()\<close>\<close>

definition strip :: "string \<Rightarrow> string" where
  "strip s = rev (dropWhile is_space (rev (dropWhile is_space s)))"

text \<open>\<^verbatim>\<open>s.split()\<close>: the maximal runs of characters that are not whitespace.\<close>

fun split_ws :: "string \<Rightarrow> string \<Rightarrow> string list" where
  "split_ws cur [] = (if cur = [] then [] else [cur])"
| "split_ws cur (c # cs) =
     (if is_space c then (if cur = [] then split_ws [] cs else cur # split_ws [] cs)
      else split_ws (cur @ [c]) cs)"

definition py_split :: "string \<Rightarrow> string list" where
  "py_split s = split_ws [] s"

text \<open>\<^verbatim>\<open>sep.join(xs)\<close>\<close>

fun py_join :: "string \<Rightarrow> string list \<Rightarrow> string" where
  "py_join sep [] = []"
| "py_join sep [x] = x"
| "py_join sep (x # y # ys) = x @ sep @ py_join sep (y # ys)"

text \<open>\<^verbatim>\<open>sub in s\<close> for strings.\<close>

fun contains :: "string \<Rightarrow> string \<Rightarrow> bool" where
  "contains sub [] = (sub = [])"
| "contains sub (c # cs) = (take (length sub) (c # cs) = sub \<or> contains sub cs)"

section \<open>Regular expressions\<close>

text \<open>
  The patterns of the source are values of \<^verbatim>\<open>regex\<close>; \<^verbatim>\<open>rx_match\<close> is the backtracking
  matcher of Python's \<^verbatim>\<open>re\<close>: it returns every way the pattern can match at the start of
  the remaining text, in the order in which backtracking tries them (the left alternative
  first, the longest repetition first), so that the match Python reports is the head of
  the list. A matcher state is the character before the current position (for
  \<^verbatim>\<open>\b\<close>), the remaining text and the groups captured so far.
\<close>

datatype cls = In "char list" | NotIn "char list"

fun in_cls :: "cls \<Rightarrow> char \<Rightarrow> bool" where
  "in_cls (In cs) c = (c \<in> set cs)"
| "in_cls (NotIn cs) c = (c \<notin> set cs)"

datatype regex =
    Chars cls
  | Eps
  | Seq regex regex
  | Alt regex regex
  | Rep cls nat "nat option"
  | WordB
  | Eos
  | Grp nat regex

type_synonym caps = "(nat \<times> string) list"
type_synonym mstate = "char option \<times> string \<times> caps"

text \<open>\<^verbatim>\<open>\b\<close>: exactly one of the two neighbours of the position is a word character.\<close>

definition at_boundary :: "char option \<Rightarrow> string \<Rightarrow> bool" where
  "at_boundary pv s =
     ((case pv of None \<Rightarrow> False | Some c \<Rightarrow> is_word c) \<noteq>
      (case s of [] \<Rightarrow> False | c # _ \<Rightarrow> is_word c))"

definition last_char :: "char option \<Rightarrow> string \<Rightarrow> char option" where
  "last_char pv m = (if m = [] then pv else Some (last m))"

text \<open>
  \<^verbatim>\<open>Rep k lo hi\<close> is the greedy repetition \<^verbatim>\<open>[k]{lo,hi}\<close> of a character class
  (\<^verbatim>\<open>*\<close> is \<^verbatim>\<open>Rep k 0 None\<close>, \<^verbatim>\<open>+\<close> is \<^verbatim>\<open>Rep k 1 None\<close>); \<^verbatim>\<open>Eos\<close> is \<^verbatim>\<open>$\<close>, which
  also matches before a final newline; \<^verbatim>\<open>Grp n r\<close> is the capturing group number \<^verbatim>\<open>n\<close>.
\<close>

fun rx_match :: "regex \<Rightarrow> mstate \<Rightarrow> mstate list" where
  "rx_match (Chars k) (pv, s, g) =
     (case s of [] \<Rightarrow> [] | c # rest \<Rightarrow> if in_cls k c then [(Some c, rest, g)] else [])"
| "rx_match Eps st = [st]"
| "rx_match (Seq a b) st = concat (map (rx_match b) (rx_match a st))"
| "rx_match (Alt a b) st = rx_match a st @ rx_match b st"
| "rx_match (Rep k lo hi) (pv, s, g) =
     (let avail = length (takeWhile (in_cls k) s);
          n = (case hi of None \<Rightarrow> avail | Some h \<Rightarrow> min h avail)
      in map (\<lambda>j. (last_char pv (take j s), drop j s, g)) (rev [lo..<Suc n]))"
| "rx_match WordB (pv, s, g) = (if at_boundary pv s then [(pv, s, g)] else [])"
| "rx_match Eos (pv, s, g) = (if s = [] \<or> s = [CHR 0x0A] then [(pv, s, g)] else [])"
| "rx_match (Grp n r) (pv, s, g) =
     map (\<lambda>(pv', s', g'). (pv', s', (n, take (length s - length s') s) # g'))
       (rx_match r (pv, s, g))"

text \<open>\<^verbatim>\<open>pattern.match(s, i)\<close>: the end of the match and its groups.\<close>

definition re_match_at :: "regex \<Rightarrow> string \<Rightarrow> nat \<Rightarrow> (nat \<times> caps) option" where
  "re_match_at r s i =
     (case rx_match r (if i = 0 then None else Some (s ! (i - 1)), drop i s, []) of
        [] \<Rightarrow> None
      | (pv, rest, g) # _ \<Rightarrow> Some (length s - length rest, g))"

text \<open>\<^verbatim>\<open>pattern.search(s, i)\<close>: start, end and groups of the leftmost match.\<close>

function re_search_from :: "regex \<Rightarrow> string \<Rightarrow> nat \<Rightarrow> (nat \<times> nat \<times> caps) option" where
  "re_search_from r s i =
     (if length s < i then None
      else (case re_match_at r s i of
              Some (e, g) \<Rightarrow> Some (i, e, g)
            | None \<Rightarrow> re_search_from r s (Suc i)))"
  by pat_completeness auto
termination
  by (relation "measure (\<lambda>(r, s, i). Suc (length s) - i)") auto

definition re_search :: "regex \<Rightarrow> string \<Rightarrow> (nat \<times> nat \<times> caps) option" where
  "re_search r s = re_search_from r s 0"

text \<open>
  \<^verbatim>\<open>pattern.sub(repl, s)\<close>, the replacement given as a function of the groups. After an
  empty match the next character is copied and the scan moves on by one.
\<close>

function re_sub_from :: "regex \<Rightarrow> (caps \<Rightarrow> string) \<Rightarrow> string \<Rightarrow> nat \<Rightarrow> string" where
  "re_sub_from r repl s i =
     (if length s < i then []
      else (case re_match_at r s i of
              None \<Rightarrow> (if i < length s then s ! i # re_sub_from r repl s (Suc i) else [])
            | Some (e, g) \<Rightarrow>
                repl g @
                (if i < e then re_sub_from r repl s e
                 else if i < length s then s ! i # re_sub_from r repl s (Suc i)
                 else [])))"
  by pat_completeness auto
termination
  by (relation "measure (\<lambda>(r, repl, s, i). Suc (length s) - i)") auto

definition re_sub :: "regex \<Rightarrow> (caps \<Rightarrow> string) \<Rightarrow> string \<Rightarrow> string" where
  "re_sub r repl s = re_sub_from r repl s 0"

text \<open>\<^verbatim>\<open>pattern.finditer(s)\<close>: the spans of the successive matches, left to right.\<close>

function re_finditer_from :: "regex \<Rightarrow> string \<Rightarrow> nat \<Rightarrow> (nat \<times> nat \<times> caps) list" where
  "re_finditer_from r s i =
     (if length s < i then []
      else (case re_match_at r s i of
              None \<Rightarrow> re_finditer_from r s (Suc i)
            | Some (e, g) \<Rightarrow>
                (i, e, g) # re_finditer_from r s (if i < e then e else Suc i)))"
  by pat_completeness auto
termination
  by (relation "measure (\<lambda>(r, s, i). Suc (length s) - i)") auto

definition re_finditer :: "regex \<Rightarrow> string \<Rightarrow> (nat \<times> nat \<times> caps) list" where
  "re_finditer r s = re_finditer_from r s 0"

text \<open>\<^verbatim>\<open>pattern.split(s)[0]\<close>: the text before the leftmost match, or all of it.\<close>

definition re_split_head :: "regex \<Rightarrow> string \<Rightarrow> string" where
  "re_split_head r s = (case re_search r s of None \<Rightarrow> s | Some (b, e, g) \<Rightarrow> take b s)"

text \<open>\<^verbatim>\<open>m.group(n)\<close>\<close>

definition group :: "caps \<Rightarrow> nat \<Rightarrow> string" where
  "group g n = (case map_of g n of Some t \<Rightarrow> t | None \<Rightarrow> [])"

subsection \<open>Writing patterns\<close>

fun seqs :: "regex list \<Rightarrow> regex" where
  "seqs [] = Eps"
| "seqs [r] = r"
| "seqs (r # rs) = Seq r (seqs rs)"

fun alts :: "regex list \<Rightarrow> regex" where
  "alts [] = Chars (In [])"
| "alts [r] = r"
| "alts (r # rs) = Alt r (alts rs)"

text \<open>A literal, and a literal under \<^verbatim>\<open>re.I\<close>.\<close>

definition lit :: "string \<Rightarrow> regex" where
  "lit s = seqs (map (\<lambda>c. Chars (In [c])) s)"

definition lit_i :: "string \<Rightarrow> regex" where
  "lit_i s = seqs (map (\<lambda>c. Chars (In (if lower c = upper c then [c] else [lower c, upper c]))) s)"

text \<open>\<^verbatim>\<open>r?\<close>, \<^verbatim>\<open>\s+\<close> and \<^verbatim>\<open>\s*\<close>\<close>

definition opt :: "regex \<Rightarrow> regex" where
  "opt r = Alt r Eps"

definition ws_plus :: regex where
  "ws_plus = Rep (In ws_chars) 1 None"

definition ws_star :: regex where
  "ws_star = Rep (In ws_chars) 0 None"

section \<open>Normalization and sanitizers\<close>

text \<open>
  \<^verbatim>\<open>normalize\<close>: on ASCII text the digit translation, the NFKC normalization, the folding
  of typographic dashes and quotes and the removal of zero-width characters change
  nothing; what remains is \<^verbatim>\<open>s.lower()\<close>, then \<^verbatim>\<open>re.sub(r"\s+", " ", s).strip()\<close>.
\<close>

definition normalize_text :: "string \<Rightarrow> string" where
  "normalize_text s = strip (re_sub ws_plus (\<lambda>g. '' '') (map lower s))"

text \<open>
  \<^verbatim>\<open>STOP_LABEL_PAT\<close>, compiled with \<^verbatim>\<open>re.I\<close>:
  \<^verbatim>\<open>\b(name of|address|village|gram\s*panchayat|gp|tehs?il|taluka|district|scheduled|\<close>
  \<^verbatim>\<open>other\s+traditional|nature of claim|evidence|extent of|habitation|\<close>
  \<^verbatim>\<open>self[-\s]*cultivation|signature|thumb impression)\b\<close>
\<close>

definition stop_labels :: regex where
  "stop_labels =
     alts [lit_i ''name of'', lit_i ''address'', lit_i ''village'',
           seqs [lit_i ''gram'', ws_star, lit_i ''panchayat''],
           lit_i ''gp'',
           seqs [lit_i ''teh'', opt (lit_i ''s''), lit_i ''il''],
           lit_i ''taluka'', lit_i ''district'', lit_i ''scheduled'',
           seqs [lit_i ''other'', ws_plus, lit_i ''traditional''],
           lit_i ''nature of claim'', lit_i ''evidence'', lit_i ''extent of'',
           lit_i ''habitation'',
           seqs [lit_i ''self'', Rep (In (CHR ''-'' # ws_chars)) 0 None, lit_i ''cultivation''],
           lit_i ''signature'', lit_i ''thumb impression'']"

definition STOP_LABEL_PAT :: regex where
  "STOP_LABEL_PAT = seqs [WordB, Grp 1 stop_labels, WordB]"

text \<open>\<^verbatim>\<open>m = STOP_LABEL_PAT.split(text); return (m[0].strip() if m else text.strip())\<close>;
  the list returned by \<^verbatim>\<open>split\<close> is never empty.\<close>

definition cut_at_next_label :: "string \<Rightarrow> string" where
  "cut_at_next_label s = strip (re_split_head STOP_LABEL_PAT s)"

text \<open>
  \<^verbatim>\<open>\b(house|address|village|district|taluka|tehs?il|panchayat|gp|pattas?|leases?l?|grants?)\b\<close>
\<close>

definition person_blacklist :: regex where
  "person_blacklist =
     seqs [WordB,
           Grp 1 (alts [lit ''house'', lit ''address'', lit ''village'', lit ''district'',
                        lit ''taluka'', seqs [lit ''teh'', opt (lit ''s''), lit ''il''],
                        lit ''panchayat'', lit ''gp'',
                        seqs [lit ''patta'', opt (lit ''s'')],
                        seqs [lit ''lease'', opt (lit ''s''), opt (lit ''l'')],
                        seqs [lit ''grant'', opt (lit ''s'')]]),
           WordB]"

text \<open>\<^verbatim>\<open>[0-9\[\]\(\)\/:,]+\<close>\<close>

definition person_punct :: regex where
  "person_punct = Rep (In (digit_chars @ ''[]()/:,'')) 1 None"

definition sanitize_person_value :: "string \<Rightarrow> string" where
  "sanitize_person_value s =
     (let t = normalize_text s;
          t = re_sub person_blacklist (\<lambda>g. '' '') t;
          t = re_sub person_punct (\<lambda>g. '' '') t;
          t = strip (re_sub ws_plus (\<lambda>g. '' '') t);
          parts = py_split t
      in if parts \<noteq> [] then py_join '' '' (take 3 parts) else [])"

text \<open>
  \<^verbatim>\<open>float(token)\<close> on plain decimal notation (digits, with an optional point and
  fraction), which is all that the number pattern below can produce; the result is the
  exact decimal value. Signs, exponents and the special values are not modelled.
\<close>

definition digit_val :: "char \<Rightarrow> nat" where
  "digit_val c = (case map_of (zip digit_chars [0, 1, 2, 3, 4, 5, 6, 7, 8, 9]) c of
                    Some d \<Rightarrow> d | None \<Rightarrow> 0)"

definition digits_value :: "string \<Rightarrow> nat" where
  "digits_value ds = foldl (\<lambda>a c. 10 * a + digit_val c) 0 ds"

definition py_float :: "string \<Rightarrow> rat option" where
  "py_float s =
     (let ip = takeWhile (\<lambda>c. c \<in> set digit_chars) s;
          r = dropWhile (\<lambda>c. c \<in> set digit_chars) s
      in case r of
           [] \<Rightarrow> if ip = [] then None else Some (of_nat (digits_value ip))
         | c # fp \<Rightarrow>
             if c = CHR ''.'' \<and> (ip \<noteq> [] \<or> fp \<noteq> []) \<and> list_all (\<lambda>c. c \<in> set digit_chars) fp
             then Some (of_nat (digits_value ip) + of_nat (digits_value fp) / 10 ^ length fp)
             else None)"

section \<open>Boxes, tokens and lines\<close>

text \<open>
  A bounding box is the quadrilateral of four integer points that \<^verbatim>\<open>quad_from_xywh\<close>
  builds; \<^verbatim>\<open>rect_from_bbox\<close> returns \<^verbatim>\<open>(min xs, min ys, max xs, max ys)\<close>.
\<close>

type_synonym point = "int \<times> int"
type_synonym quad = "point \<times> point \<times> point \<times> point"
type_synonym rect = "int \<times> int \<times> int \<times> int"

definition quad_from_xywh :: "int \<Rightarrow> int \<Rightarrow> int \<Rightarrow> int \<Rightarrow> quad" where
  "quad_from_xywh x y w h = ((x, y), (x + w, y), (x + w, y + h), (x, y + h))"

definition rect_from_bbox :: "quad \<Rightarrow> rect" where
  "rect_from_bbox q =
     (case q of ((a1, b1), (a2, b2), (a3, b3), (a4, b4)) \<Rightarrow>
        (min a1 (min a2 (min a3 a4)), min b1 (min b2 (min b3 b4)),
         max a1 (max a2 (max a3 a4)), max b1 (max b2 (max b3 b4))))"

text \<open>
  \<^verbatim>\<open>int(a / b)\<close> for a positive \<^verbatim>\<open>b\<close>: Python's \<^verbatim>\<open>int\<close> truncates toward zero. The source
  writes the quotients as float products: \<^verbatim>\<open>int(0.5 * n)\<close> is \<^verbatim>\<open>tdiv n 2\<close>,
  \<^verbatim>\<open>int(d * 1.5)\<close> is \<^verbatim>\<open>tdiv (3 * d) 2\<close> and \<^verbatim>\<open>int(h * 0.02)\<close> is \<^verbatim>\<open>tdiv h 50\<close>; for pixel
  coordinates (far below \<^verbatim>\<open>2^53\<close>) the float product rounds to the same integer.
\<close>

definition tdiv :: "int \<Rightarrow> int \<Rightarrow> int" where
  "tdiv a b = (if 0 \<le> a then a div b else - ((- a) div b))"

text \<open>
  An OCR item \<^verbatim>\<open>{"text", "confidence", "bbox"}\<close>; the confidence is never read by the
  extraction.
\<close>

record token =
  t_text :: string
  t_bbox :: quad

text \<open>A line \<^verbatim>\<open>{"y", "y_vals", "items"}\<close>.\<close>

record line =
  l_y :: int
  y_vals :: "int list"
  l_items :: "token list"

definition mid_y :: "token \<Rightarrow> int" where
  "mid_y it = (case rect_from_bbox (t_bbox it) of (x1, y1, x2, y2) \<Rightarrow> tdiv (y1 + y2) 2)"

definition left_x :: "token \<Rightarrow> int" where
  "left_x it = (case rect_from_bbox (t_bbox it) of (x1, y1, x2, y2) \<Rightarrow> x1)"

text \<open>
  \<^verbatim>\<open>int(np.median(vals))\<close>: the middle element of the sorted values, or the mean of the
  two middle ones, truncated. The list passed always holds the value just appended; for
  the empty list (where numpy yields nan) the model returns 0.
\<close>

definition median_int :: "int list \<Rightarrow> int" where
  "median_int vals =
     (let s = sort vals; n = length s
      in if n = 0 then 0
         else if odd n then s ! (n div 2)
         else tdiv (s ! (n div 2 - 1) + s ! (n div 2)) 2)"

text \<open>
  The inner loop \<^verbatim>\<open>for ln in lines\<close> of \<^verbatim>\<open>group_by_lines\<close>: the first line within the
  tolerance takes the token; \<^verbatim>\<open>None\<close> when no line does (\<^verbatim>\<open>placed\<close> stays false).
\<close>

fun place_token :: "int \<Rightarrow> token \<Rightarrow> line list \<Rightarrow> line list option" where
  "place_token y_tol it [] = None"
| "place_token y_tol it (li # lns) =
     (if \<bar>l_y li - mid_y it\<bar> \<le> y_tol
      then Some (li\<lparr>l_items := l_items li @ [it],
                     y_vals := y_vals li @ [mid_y it],
                     l_y := median_int (y_vals li @ [mid_y it])\<rparr> # lns)
      else map_option ((#) li) (place_token y_tol it lns))"

definition add_token :: "int \<Rightarrow> line list \<Rightarrow> token \<Rightarrow> line list" where
  "add_token y_tol lines it =
     (case place_token y_tol it lines of
        Some lines' \<Rightarrow> lines'
      | None \<Rightarrow> lines @ [\<lparr>l_y = mid_y it, y_vals = [mid_y it], l_items = [it]\<rparr>])"

definition group_by_lines :: "token list \<Rightarrow> int \<Rightarrow> line list" where
  "group_by_lines items page_h =
     (if items = [] then []
      else let y_tol = max 10 (tdiv page_h 50);
               lines = foldl (add_token y_tol) [] (sort_key mid_y items)
           in map (\<lambda>li. li\<lparr>l_items := sort_key left_x (l_items li)\<rparr>) lines)"

text \<open>\<^verbatim>\<open>" ".join([it.get("text","") for it in items])\<close>\<close>

definition join_texts :: "token list \<Rightarrow> string" where
  "join_texts items = py_join '' '' (map t_text items)"

text \<open>
  The loop that finds the line of an anchor, the same in \<^verbatim>\<open>collect_right_bounded\<close>,
  \<^verbatim>\<open>collect_below_same_column\<close> and \<^verbatim>\<open>yes_no_from_near_text\<close>:
  \<^verbatim>\<open>idx=None; best=1e9; for i,ln in enumerate(lines): dy = abs(ln["y"]-am); if dy<best: best=dy; idx=i\<close>
\<close>

fun nearest_from :: "int \<Rightarrow> line list \<Rightarrow> nat \<Rightarrow> nat option \<Rightarrow> int \<Rightarrow> nat option" where
  "nearest_from am [] i idx best = idx"
| "nearest_from am (li # lns) i idx best =
     (if \<bar>l_y li - am\<bar> < best
      then nearest_from am lns (Suc i) (Some i) \<bar>l_y li - am\<bar>
      else nearest_from am lns (Suc i) idx best)"

definition nearest_line :: "int \<Rightarrow> line list \<Rightarrow> nat option" where
  "nearest_line am lines = nearest_from am lines 0 None 1000000000"

section \<open>Area figures (\<^verbatim>\<open>number_after_keyword_with_ha\<close>)\<close>

text \<open>
  \<^verbatim>\<open>([0-9]+(?:[.,]\s*[0-9]+|\s+[0-9]{2})?)\s*h[a]\b\<close> under \<^verbatim>\<open>re.I\<close> (the second letter the
  source accepts after \<^verbatim>\<open>h\<close>, a Latin alpha, lies outside ASCII).
\<close>

definition num_pat :: regex where
  "num_pat =
     seqs [Grp 1 (seqs [Rep (In digit_chars) 1 None,
                        opt (Alt (seqs [Chars (In ''.,''), ws_star, Rep (In digit_chars) 1 None])
                                 (seqs [ws_plus, Rep (In digit_chars) 2 (Some 2)]))]),
           ws_star, lit_i ''ha'', WordB]"

text \<open>The keyword patterns \<^verbatim>\<open>\bhabitation[:\s]*\<close> and \<^verbatim>\<open>\bself[-\s]*cultivation[:\s]*\<close>.\<close>

definition habitation_kw :: regex where
  "habitation_kw = seqs [WordB, lit_i ''habitation'', Rep (In (CHR '':'' # ws_chars)) 0 None]"

definition self_cultivation_kw :: regex where
  "self_cultivation_kw =
     seqs [WordB, lit_i ''self'', Rep (In (CHR ''-'' # ws_chars)) 0 None, lit_i ''cultivation'',
           Rep (In (CHR '':'' # ws_chars)) 0 None]"

text \<open>
  The three rewrites of the matched number:
  \<^verbatim>\<open>token.replace(",", ".")\<close>, \<^verbatim>\<open>re.sub(r"\s*\.\s*", ".", token)\<close> and
  \<^verbatim>\<open>re.sub(r"(\d)\s+(\d{2})$", r"\1.\2", token)\<close>.
\<close>

definition fix_token :: "string \<Rightarrow> string" where
  "fix_token token =
     (let t = map (\<lambda>c. if c = CHR '','' then CHR ''.'' else c) token;
          t = re_sub (seqs [ws_star, Chars (In ''.''), ws_star]) (\<lambda>g. ''.'') t
      in re_sub (seqs [Grp 1 (Chars (In digit_chars)), ws_plus,
                       Grp 2 (Rep (In digit_chars) 2 (Some 2)), Eos])
           (\<lambda>g. group g 1 @ ''.'' @ group g 2) t)"

text \<open>
  The body of \<^verbatim>\<open>for m in pat_kw.finditer(txt)\<close>, which the source writes out twice: the
  first keyword match whose window holds a number that \<^verbatim>\<open>float\<close> accepts.
\<close>

fun area_from_matches :: "string \<Rightarrow> nat \<Rightarrow> (nat \<times> nat \<times> caps) list \<Rightarrow> rat option" where
  "area_from_matches txt max_chars [] = None"
| "area_from_matches txt max_chars ((b, e, g) # ms) =
     (case re_search num_pat (take max_chars (drop e txt)) of
        None \<Rightarrow> area_from_matches txt max_chars ms
      | Some (b', e', g') \<Rightarrow>
          (case py_float (fix_token (group g' 1)) of
             Some v \<Rightarrow> Some v
           | None \<Rightarrow> area_from_matches txt max_chars ms))"

definition area_in_text :: "regex \<Rightarrow> nat \<Rightarrow> string \<Rightarrow> rat option" where
  "area_in_text pat_kw max_chars txt = area_from_matches txt max_chars (re_finditer pat_kw txt)"

fun first_area :: "regex \<Rightarrow> nat \<Rightarrow> string list \<Rightarrow> rat option" where
  "first_area pat_kw max_chars [] = None"
| "first_area pat_kw max_chars (txt # txts) =
     (case area_in_text pat_kw max_chars txt of
        Some v \<Rightarrow> Some v
      | None \<Rightarrow> first_area pat_kw max_chars txts)"

definition number_after_keyword_with_ha :: "line list \<Rightarrow> regex \<Rightarrow> nat \<Rightarrow> rat option" where
  "number_after_keyword_with_ha lines keyword_regex max_chars =
     (case first_area keyword_regex max_chars
             (map (\<lambda>li. normalize_text (join_texts (l_items li))) lines) of
        Some v \<Rightarrow> Some v
      | None \<Rightarrow>
          first_area keyword_regex max_chars
            (map (\<lambda>(a, b). normalize_text (join_texts (l_items a @ l_items b)))
               (zip lines (tl lines))))"

section \<open>Booleans from text and from checkboxes\<close>

text \<open>\<^verbatim>\<open>\byes\b\<close> and \<^verbatim>\<open>\bno\b\<close>\<close>

definition yes_pat :: regex where
  "yes_pat = seqs [WordB, lit ''yes'', WordB]"

definition no_pat :: regex where
  "no_pat = seqs [WordB, lit ''no'', WordB]"

text \<open>\<^verbatim>\<open>harvest(ln)\<close>, returning what it appends to \<^verbatim>\<open>candidates\<close>.\<close>

definition harvest :: "line \<Rightarrow> string list" where
  "harvest li =
     concat (map (\<lambda>it. let t = normalize_text (t_text it)
                       in (if re_search yes_pat t \<noteq> None then [''yes''] else []) @
                          (if re_search no_pat t \<noteq> None then [''no''] else []))
               (l_items li))"

definition yes_no_from_near_text :: "token list \<Rightarrow> rect \<Rightarrow> int \<Rightarrow> int \<Rightarrow> bool option" where
  "yes_no_from_near_text items anchor_rect page_w page_h =
     (case anchor_rect of (ax1, ay1, ax2, ay2) \<Rightarrow>
        let lines = group_by_lines items page_h;
            candidates =
              (case nearest_line (tdiv (ay1 + ay2) 2) lines of
                 None \<Rightarrow> []
               | Some idx \<Rightarrow>
                   harvest (lines ! idx) @
                   (if idx + 1 < length lines then harvest (lines ! (idx + 1)) else []))
        in if candidates = [] then None
           else if ''yes'' \<in> set candidates \<and> ''no'' \<notin> set candidates then Some True
           else if ''no'' \<in> set candidates \<and> ''yes'' \<notin> set candidates then Some False
           else None)"

text \<open>
  A detected checkbox \<^verbatim>\<open>{"bbox", "filled", "fill_ratio", "near_label"}\<close> (the fill ratio is
  not read after detection) and the detections of a page, of which the extraction reads
  the checkboxes and whether there is any signature.
\<close>

record checkbox =
  cb_bbox :: quad
  filled :: bool
  near_label :: "string option"

record m2_page =
  checkboxes :: "checkbox list"
  signatures :: "quad list"

definition cb_mid_y :: "checkbox \<Rightarrow> int" where
  "cb_mid_y b = (case rect_from_bbox (cb_bbox b) of (x1, y1, x2, y2) \<Rightarrow> tdiv (y1 + y2) 2)"

definition cb_left_x :: "checkbox \<Rightarrow> int" where
  "cb_left_x b = (case rect_from_bbox (cb_bbox b) of (x1, y1, x2, y2) \<Rightarrow> x1)"

text \<open>The loop \<^verbatim>\<open>for b in close\<close> that tries the label text of the boxes.\<close>

fun label_vote :: "checkbox list \<Rightarrow> bool option" where
  "label_vote [] = None"
| "label_vote (b # bs) =
     (let lab = (case near_label b of None \<Rightarrow> [] | Some l \<Rightarrow> l)
      in if contains ''yes'' lab \<and> filled b then Some True
         else if contains ''no'' lab \<and> filled b then Some False
         else label_vote bs)"

text \<open>The boxes within the vertical band of the anchor, in page order.\<close>

definition close_boxes :: "rect \<Rightarrow> m2_page \<Rightarrow> checkbox list" where
  "close_boxes anchor_rect m2 =
     (case anchor_rect of (bx1, by1, bx2, by2) \<Rightarrow>
        filter (\<lambda>b. \<bar>cb_mid_y b - tdiv (by1 + by2) 2\<bar> \<le> max 12 (tdiv (3 * (by2 - by1)) 2))
          (checkboxes m2))"

text \<open>
  \<^verbatim>\<open>bool_from_checkboxes_near\<close>. The dictionary \<^verbatim>\<open>m2_page\<close> always has its keys, so
  \<^verbatim>\<open>not m2_page\<close> is false; \<^verbatim>\<open>close.sort\<close> sorts in place (and is stable), so the label
  loop runs over the sorted list when there are two boxes or more.
\<close>

definition bool_from_checkboxes_near :: "rect option \<Rightarrow> m2_page \<Rightarrow> bool option" where
  "bool_from_checkboxes_near anchor_rect m2 =
     (case anchor_rect of
        None \<Rightarrow> None
      | Some r \<Rightarrow>
          let close = close_boxes r m2 in
          if 2 \<le> length close then
            (let sorted_close = sort_key cb_left_x close;
                 left = sorted_close ! 0; right = sorted_close ! 1
             in if filled left \<noteq> filled right then Some (filled left)
                else label_vote sorted_close)
          else label_vote close)"

section \<open>Page extraction (\<^verbatim>\<open>extract_page_fields\<close>)\<close>

text \<open>\<^verbatim>\<open>find_anchor_item\<close>: the first item one of whose label patterns is found in its
  normalized text.\<close>

fun find_anchor_item :: "token list \<Rightarrow> regex list \<Rightarrow> token option" where
  "find_anchor_item [] patterns = None"
| "find_anchor_item (it # its) patterns =
     (if list_ex (\<lambda>pat. re_search pat (normalize_text (t_text it)) \<noteq> None) patterns
      then Some it else find_anchor_item its patterns)"

text \<open>
  The label patterns of \<^verbatim>\<open>ANCHORS\<close> for the two boolean fields, searched with \<^verbatim>\<open>re.I\<close>:
  \<^verbatim>\<open>scheduled\s*tribe\<close> and \<^verbatim>\<open>other\s*traditional\s*forest\s*dweller\<close>.
\<close>

definition scheduled_tribe_labels :: "regex list" where
  "scheduled_tribe_labels = [seqs [lit_i ''scheduled'', ws_star, lit_i ''tribe'']]"

definition otfd_labels :: "regex list" where
  "otfd_labels =
     [seqs [lit_i ''other'', ws_star, lit_i ''traditional'', ws_star, lit_i ''forest'',
            ws_star, lit_i ''dweller'']]"

text \<open>The rectangle that \<^verbatim>\<open>get_after(key)\<close> returns beside the text.\<close>

definition get_after_rect :: "token list \<Rightarrow> regex list \<Rightarrow> rect option" where
  "get_after_rect items labels =
     map_option (\<lambda>it. rect_from_bbox (t_bbox it)) (find_anchor_item items labels)"

text \<open>\<^verbatim>\<open>page_meta\<close>; \<^verbatim>\<open>h = int(page_meta.get("height") or 3500)\<close>, and likewise the width.\<close>

record page_meta =
  pm_width :: int
  pm_height :: int

text \<open>One boolean field: the checkboxes near its anchor first, else the text near it.\<close>

definition resolve_bool :: "page_meta \<Rightarrow> token list \<Rightarrow> m2_page \<Rightarrow> regex list \<Rightarrow> bool option" where
  "resolve_bool pm items m2 labels =
     (let h = (if pm_height pm = 0 then 3500 else pm_height pm);
          w = (if pm_width pm = 0 then 2500 else pm_width pm);
          rect = get_after_rect items labels;
          box = bool_from_checkboxes_near rect m2
      in case (box, rect) of
           (None, Some r) \<Rightarrow> yes_no_from_near_text items r w h
         | _ \<Rightarrow> box)"

text \<open>
  The part of \<^verbatim>\<open>extract_page_fields\<close> that sets \<^verbatim>\<open>out["scheduled_tribe"]\<close> and
  \<^verbatim>\<open>out["otfd"]\<close>, the exclusivity rule included; nothing after it writes these keys.
\<close>

definition extract_st_otfd :: "page_meta \<Rightarrow> token list \<Rightarrow> m2_page \<Rightarrow> bool option \<times> bool option" where
  "extract_st_otfd pm items m2 =
     (let st = resolve_bool pm items m2 scheduled_tribe_labels;
          ot = resolve_bool pm items m2 otfd_labels
      in if st = Some True \<and> ot = Some True then (st, Some False) else (st, ot))"

text \<open>
  The last step of \<^verbatim>\<open>extract_page_fields\<close>, on the values of \<^verbatim>\<open>out["claimant_name"]\<close> and
  \<^verbatim>\<open>out["spouse_name"]\<close> (each a string or \<^verbatim>\<open>None\<close>), returning the two new values.
\<close>

definition claimant_spouse_postfix :: "string option \<Rightarrow> string option \<Rightarrow> string option \<times> string option" where
  "claimant_spouse_postfix claimant spouse =
     (case (claimant, spouse) of
        (Some c, Some s) \<Rightarrow>
          if c \<noteq> [] \<and> s \<noteq> [] \<and> normalize_text c = normalize_text s then
            (let toks = py_split c
             in if length toks = 3 then (Some (py_join '' '' (take 2 toks)), Some (toks ! 2))
                else if length toks = 4
                  then (Some (py_join '' '' (take 2 toks)), Some (py_join '' '' (drop 2 toks)))
                else (claimant, spouse))
          else (claimant, spouse)
      | _ \<Rightarrow> (claimant, spouse))"

section \<open>Field values and field dictionaries\<close>

text \<open>
  A dependent member is the dictionary \<^verbatim>\<open>{"name": ..., "age": ...}\<close> built by
  \<^verbatim>\<open>parse_members_tolerant\<close>; the key \<^verbatim>\<open>age\<close> may be absent, in which case
  \<^verbatim>\<open>m.get("age")\<close> is \<^verbatim>\<open>None\<close>.
\<close>

record member =
  m_name :: string
  m_age :: "int option"

text \<open>
  The values stored in a field dictionary: \<^verbatim>\<open>None\<close>, a string, a boolean, a float
  (area figures; the model keeps the exact decimal value), or a list of members.
\<close>

datatype pyval = PNone | PStr string | PBool bool | PFloat rat | PList "member list"

text \<open>The fifteen keys of \<^verbatim>\<open>out\<close> and \<^verbatim>\<open>merged\<close>, in the order of the dictionary literal.\<close>

datatype fkey =
    Claimant_name | Spouse_name | Father_name | Mother_name
  | Address | Village | Gram_panchayat | Tehsil_taluka | District
  | Scheduled_tribe | Otfd | Other_members
  | Habitation_area_ha | Self_cultivation_area_ha | Signature_present

type_synonym fields = "fkey \<Rightarrow> pyval"

definition field_keys :: "fkey list" where
  "field_keys =
     [Claimant_name, Spouse_name, Father_name, Mother_name,
      Address, Village, Gram_panchayat, Tehsil_taluka, District,
      Scheduled_tribe, Otfd, Other_members,
      Habitation_area_ha, Self_cultivation_area_ha, Signature_present]"

text \<open>
  The initial dictionary, written out twice in the source (as \<^verbatim>\<open>out\<close> in
  \<^verbatim>\<open>extract_page_fields\<close> and as \<^verbatim>\<open>merged\<close> in \<^verbatim>\<open>process_document\<close>): every key is
  \<^verbatim>\<open>None\<close> except \<^verbatim>\<open>other_members\<close>, which is the empty list.
\<close>

definition blank_fields :: fields where
  "blank_fields = (\<lambda>k. if k = Other_members then PList [] else PNone)"

datatype error = TypeError | AttributeError

section \<open>Cross-page merge (\<^verbatim>\<open>process_document\<close>)\<close>

text \<open>\<^verbatim>\<open>pick(cur, new) = cur if cur not in [None, "", []] else new\<close>\<close>

definition pick :: "pyval \<Rightarrow> pyval \<Rightarrow> pyval" where
  "pick cur new = (if cur \<in> set [PNone, PStr [], PList []] then new else cur)"

text \<open>Python truthiness of a value, as used by \<^verbatim>\<open>f.get(k) or []\<close>.\<close>

fun truthy :: "pyval \<Rightarrow> bool" where
  "truthy PNone = False"
| "truthy (PStr s) = (s \<noteq> [])"
| "truthy (PBool b) = b"
| "truthy (PFloat r) = (r \<noteq> 0)"
| "truthy (PList ms) = (ms \<noteq> [])"

definition or_empty :: "pyval \<Rightarrow> pyval" where
  "or_empty v = (if truthy v then v else PList [])"

text \<open>
  Iterating over a value and calling \<^verbatim>\<open>.get\<close> on each element: a list yields its
  members; the empty string yields nothing; a non-empty string yields one-character
  strings, on which \<^verbatim>\<open>.get\<close> raises \<^verbatim>\<open>AttributeError\<close>; anything else is not iterable.
\<close>

fun iter_members :: "pyval \<Rightarrow> error + member list" where
  "iter_members (PList ms) = Inr ms"
| "iter_members (PStr s) = (if s = [] then Inr [] else Inl AttributeError)"
| "iter_members PNone = Inl TypeError"
| "iter_members (PBool b) = Inl TypeError"
| "iter_members (PFloat r) = Inl TypeError"

definition member_key :: "member \<Rightarrow> string \<times> int option" where
  "member_key m = (m_name m, m_age m)"

text \<open>
  The inner loop over one page's members. The state is the list \<^verbatim>\<open>merged[k]\<close> together
  with the set \<^verbatim>\<open>existing\<close> of keys.
\<close>

fun add_members ::
  "member list \<times> (string \<times> int option) set \<Rightarrow> member list \<Rightarrow>
   member list \<times> (string \<times> int option) set" where
  "add_members (acc, existing) [] = (acc, existing)"
| "add_members (acc, existing) (mm # rest) =
     (if member_key mm \<notin> existing
      then add_members (acc @ [mm], insert (member_key mm) existing) rest
      else add_members (acc, existing) rest)"

text \<open>The body of \<^verbatim>\<open>for k in merged.keys()\<close> for one key.\<close>

definition merge_key :: "fields \<Rightarrow> fields \<Rightarrow> fkey \<Rightarrow> error + fields" where
  "merge_key merged f k =
     (if k = Other_members then
        (case iter_members (merged k) of
           Inl e \<Rightarrow> Inl e
         | Inr cur \<Rightarrow>
             (case iter_members (or_empty (f k)) of
                Inl e \<Rightarrow> Inl e
              | Inr new \<Rightarrow>
                  Inr (merged(k := PList (fst (add_members (cur, member_key ` set cur) new))))))
      else Inr (merged(k := pick (merged k) (f k))))"

fun merge_keys :: "fields \<Rightarrow> fields \<Rightarrow> fkey list \<Rightarrow> error + fields" where
  "merge_keys merged f [] = Inr merged"
| "merge_keys merged f (k # ks) =
     (case merge_key merged f k of Inl e \<Rightarrow> Inl e | Inr merged' \<Rightarrow> merge_keys merged' f ks)"

text \<open>The loop \<^verbatim>\<open>for pg in pages\<close>.\<close>

fun merge_pages :: "fields \<Rightarrow> fields list \<Rightarrow> error + fields" where
  "merge_pages merged [] = Inr merged"
| "merge_pages merged (f # fs) =
     (case merge_keys merged f field_keys of
        Inl e \<Rightarrow> Inl e
      | Inr merged' \<Rightarrow> merge_pages merged' fs)"

text \<open>
  The exclusivity rule, applied to \<^verbatim>\<open>out\<close> in \<^verbatim>\<open>extract_page_fields\<close> and to
  \<^verbatim>\<open>merged\<close> in \<^verbatim>\<open>process_document\<close>:
  \<^verbatim>\<open>if d["scheduled_tribe"] is True and d["otfd"] is True: d["otfd"] = False\<close>.
\<close>

definition exclusivity :: "fields \<Rightarrow> fields" where
  "exclusivity d =
     (if d Scheduled_tribe = PBool True \<and> d Otfd = PBool True
      then d(Otfd := PBool False) else d)"

text \<open>
  The merge stage of \<^verbatim>\<open>process_document\<close>: from the per-page field dictionaries to the
  dictionary stored under \<^verbatim>\<open>extracted\<close>.
\<close>

definition merge_document :: "fields list \<Rightarrow> error + fields" where
  "merge_document pages =
     (case merge_pages blank_fields pages of
        Inl e \<Rightarrow> Inl e
      | Inr merged \<Rightarrow> Inr (exclusivity merged))"

section \<open>Notions used in the statements\<close>

subsection \<open>Merge\<close>

text \<open>
  A value counts as set when it is not \<^verbatim>\<open>None\<close>, not the empty string and not the empty
  list. \<^verbatim>\<open>first_seen cs\<close> keeps the element at position \<^verbatim>\<open>i\<close> of \<^verbatim>\<open>cs\<close> exactly when its
  \<^verbatim>\<open>(name, age)\<close> pair does not occur at an earlier position; \<^verbatim>\<open>fresh\<close> is the same
  selection written recursively, relative to a set of pairs already seen.
  \<^verbatim>\<open>page_members\<close> reads the member list of a page.
\<close>

definition has_value :: "pyval \<Rightarrow> bool" where
  "has_value v = (v \<noteq> PNone \<and> v \<noteq> PStr [] \<and> v \<noteq> PList [])"

fun fresh :: "(string \<times> int option) set \<Rightarrow> member list \<Rightarrow> member list" where
  "fresh seen [] = []"
| "fresh seen (x # xs) =
     (if member_key x \<in> seen then fresh seen xs else x # fresh (insert (member_key x) seen) xs)"

definition first_seen :: "member list \<Rightarrow> member list" where
  "first_seen cs =
     map (\<lambda>i. cs ! i)
       (filter (\<lambda>i. member_key (cs ! i) \<notin> member_key ` set (take i cs)) [0..<length cs])"

definition page_members :: "fields \<Rightarrow> member list" where
  "page_members f = (case f Other_members of PList ms \<Rightarrow> ms | _ \<Rightarrow> [])"

subsection \<open>Checkboxes and lines\<close>

text \<open>The label text of a box, \<^verbatim>\<open>b.get("near_label") or ""\<close>.\<close>

definition label_of :: "checkbox \<Rightarrow> string" where
  "label_of b = (case near_label b of None \<Rightarrow> [] | Some l \<Rightarrow> l)"

text \<open>
  The tokens of a sequence of lines, line after line; and the invariant of the grouping
  loop, for tokens taken in the order of their vertical centres, \<^verbatim>\<open>c\<close> being the centre
  of the token just placed: the centres of the lines before the last are in order, each
  lies more than the tolerance above \<^verbatim>\<open>c\<close> (so that line takes no further token) and not
  below any value of the last line; the last line's centre is the median of its values,
  none of which lies below \<^verbatim>\<open>c\<close>.
\<close>

definition all_items :: "line list \<Rightarrow> token list" where
  "all_items lines = concat (map l_items lines)"

definition lines_inv :: "int \<Rightarrow> int \<Rightarrow> line list \<Rightarrow> bool" where
  "lines_inv y_tol c lines =
     (lines = [] \<or>
      (sorted (map l_y (butlast lines)) \<and>
       (\<forall>a \<in> set (butlast lines).
          l_y a + y_tol < c \<and> (\<forall>v \<in> set (y_vals (last lines)). l_y a \<le> v)) \<and>
       y_vals (last lines) \<noteq> [] \<and>
       l_y (last lines) = median_int (y_vals (last lines)) \<and>
       (\<forall>v \<in> set (y_vals (last lines)). v \<le> c)))"

text \<open>
  The line nearest to a height \<^verbatim>\<open>am\<close>, read off the lines' centres alone: its centre is
  nearer to \<^verbatim>\<open>am\<close> than \<^verbatim>\<open>1e9\<close>, no line's centre is nearer, and the centre of every
  line before it is farther. Then the tokens of a line and of the line after it.
\<close>

definition nearest_index :: "int \<Rightarrow> line list \<Rightarrow> nat \<Rightarrow> bool" where
  "nearest_index am lines k \<longleftrightarrow>
     k < length lines \<and> \<bar>l_y (lines ! k) - am\<bar> < 1000000000 \<and>
     (\<forall>j \<in> {0..<length lines}. \<bar>l_y (lines ! k) - am\<bar> \<le> \<bar>l_y (lines ! j) - am\<bar>) \<and>
     (\<forall>j \<in> {0..<k}. \<bar>l_y (lines ! k) - am\<bar> < \<bar>l_y (lines ! j) - am\<bar>)"

definition line_and_next :: "line list \<Rightarrow> nat \<Rightarrow> token list" where
  "line_and_next lines k =
     l_items (lines ! k) @ (if k + 1 < length lines then l_items (lines ! (k + 1)) else [])"

subsection \<open>What a pattern matches\<close>

text \<open>
  \<^verbatim>\<open>accepts r pv m af\<close>: the pattern \<^verbatim>\<open>r\<close> matches exactly the text \<^verbatim>\<open>m\<close>, when \<^verbatim>\<open>pv\<close> is
  the character before \<^verbatim>\<open>m\<close> and \<^verbatim>\<open>af\<close> the text after it. This is the declarative reading
  of a pattern, against which the backtracking matcher is proved sound and complete.
  \<^verbatim>\<open>lang r m\<close> is the same for a pattern without \<^verbatim>\<open>\b\<close> and \<^verbatim>\<open>$\<close>, where the context
  plays no part.
\<close>

fun accepts :: "regex \<Rightarrow> char option \<Rightarrow> string \<Rightarrow> string \<Rightarrow> bool" where
  "accepts (Chars k) pv m af = (case m of [c] \<Rightarrow> in_cls k c | _ \<Rightarrow> False)"
| "accepts Eps pv m af = (m = [])"
| "accepts (Seq a b) pv m af =
     (\<exists>j \<le> length m. accepts a pv (take j m) (drop j m @ af) \<and>
                      accepts b (last_char pv (take j m)) (drop j m) af)"
| "accepts (Alt a b) pv m af = (accepts a pv m af \<or> accepts b pv m af)"
| "accepts (Rep k lo hi) pv m af =
     (list_all (in_cls k) m \<and> lo \<le> length m \<and>
      (case hi of None \<Rightarrow> True | Some h \<Rightarrow> length m \<le> h))"
| "accepts WordB pv m af = (m = [] \<and> at_boundary pv af)"
| "accepts Eos pv m af = (m = [] \<and> (af = [] \<or> af = [CHR 0x0A]))"
| "accepts (Grp n r) pv m af = accepts r pv m af"

definition prev_char :: "string \<Rightarrow> nat \<Rightarrow> char option" where
  "prev_char s i = (if i = 0 then None else Some (s ! (i - 1)))"

fun lang :: "regex \<Rightarrow> string \<Rightarrow> bool" where
  "lang (Chars k) m = (case m of [c] \<Rightarrow> in_cls k c | _ \<Rightarrow> False)"
| "lang Eps m = (m = [])"
| "lang (Seq a b) m = (\<exists>j \<le> length m. lang a (take j m) \<and> lang b (drop j m))"
| "lang (Alt a b) m = (lang a m \<or> lang b m)"
| "lang (Rep k lo hi) m =
     (list_all (in_cls k) m \<and> lo \<le> length m \<and>
      (case hi of None \<Rightarrow> True | Some h \<Rightarrow> length m \<le> h))"
| "lang WordB m = False"
| "lang Eos m = False"
| "lang (Grp n r) m = lang r m"

text \<open>
  Properties of a pattern read off its syntax: \<^verbatim>\<open>plain\<close> (no \<^verbatim>\<open>\b\<close>, no \<^verbatim>\<open>$\<close>),
  \<^verbatim>\<open>nonnull\<close> (it cannot match the empty text), \<^verbatim>\<open>firstw\<close> and \<^verbatim>\<open>lastw\<close> (a match, unless
  empty, begins and ends with a word character). \<^verbatim>\<open>framed r\<close> is \<^verbatim>\<open>\b r \b\<close>.
\<close>

fun plain :: "regex \<Rightarrow> bool" where
  "plain (Seq a b) = (plain a \<and> plain b)"
| "plain (Alt a b) = (plain a \<and> plain b)"
| "plain (Grp n r) = plain r"
| "plain WordB = False"
| "plain Eos = False"
| "plain r = True"

fun nonnull :: "regex \<Rightarrow> bool" where
  "nonnull (Chars k) = True"
| "nonnull (Seq a b) = (nonnull a \<or> nonnull b)"
| "nonnull (Alt a b) = (nonnull a \<and> nonnull b)"
| "nonnull (Rep k lo hi) = (0 < lo)"
| "nonnull (Grp n r) = nonnull r"
| "nonnull r = False"

fun cls_word :: "cls \<Rightarrow> bool" where
  "cls_word (In cs) = list_all is_word cs"
| "cls_word (NotIn cs) = False"

fun firstw :: "regex \<Rightarrow> bool" where
  "firstw (Chars k) = cls_word k"
| "firstw (Seq a b) = (firstw a \<and> (nonnull a \<or> firstw b))"
| "firstw (Alt a b) = (firstw a \<and> firstw b)"
| "firstw (Rep k lo hi) = cls_word k"
| "firstw (Grp n r) = firstw r"
| "firstw r = True"

fun lastw :: "regex \<Rightarrow> bool" where
  "lastw (Chars k) = cls_word k"
| "lastw (Seq a b) = (lastw b \<and> (nonnull b \<or> lastw a))"
| "lastw (Alt a b) = (lastw a \<and> lastw b)"
| "lastw (Rep k lo hi) = cls_word k"
| "lastw (Grp n r) = lastw r"
| "lastw r = True"

definition wordy :: "regex \<Rightarrow> bool" where
  "wordy r = (plain r \<and> nonnull r \<and> firstw r \<and> lastw r)"

definition framed :: "regex \<Rightarrow> regex" where
  "framed r = Seq WordB (Seq r WordB)"

text \<open>
  \<^verbatim>\<open>occ r s u m v\<close>: the text \<^verbatim>\<open>s\<close> is \<^verbatim>\<open>u\<close>, then a match \<^verbatim>\<open>m\<close> of \<^verbatim>\<open>r\<close>, then \<^verbatim>\<open>v\<close>, with no
  word character next to \<^verbatim>\<open>m\<close> on either side. A word is isolated in a text when it
  occurs there in this way, and a token mentions a word when the word is isolated in
  its normalized text.
\<close>

definition occ :: "regex \<Rightarrow> string \<Rightarrow> string \<Rightarrow> string \<Rightarrow> string \<Rightarrow> bool" where
  "occ r s u m v =
     (s = u @ m @ v \<and> lang r m \<and>
      (u = [] \<or> \<not> is_word (last u)) \<and> (v = [] \<or> \<not> is_word (hd v)))"

definition isolated :: "string \<Rightarrow> string \<Rightarrow> bool" where
  "isolated w t =
     (\<exists>u v. t = u @ w @ v \<and> (u = [] \<or> \<not> is_word (last u)) \<and> (v = [] \<or> \<not> is_word (hd v)))"

definition mentions :: "string \<Rightarrow> token \<Rightarrow> bool" where
  "mentions w it = isolated w (normalize_text (t_text it))"

text \<open>
  The verdict that a list of tokens gives: true when one of them mentions \<^verbatim>\<open>yes\<close> and none
  \<^verbatim>\<open>no\<close>, false when one mentions \<^verbatim>\<open>no\<close> and none \<^verbatim>\<open>yes\<close>, null when both words appear
  or neither does.
\<close>

definition verdict :: "token list \<Rightarrow> bool option" where
  "verdict scanned =
     (let yes = (\<exists>it \<in> set scanned. mentions ''yes'' it);
          no = (\<exists>it \<in> set scanned. mentions ''no'' it)
      in if yes \<and> \<not> no then Some True
         else if no \<and> \<not> yes then Some False
         else None)"

section \<open>Properties of the cross-page merge\<close>

lemma pick_simps:
  "has_value cur \<Longrightarrow> pick cur new = cur"
  "\<not> has_value cur \<Longrightarrow> pick cur new = new"
  by (auto simp: pick_def has_value_def)

lemma foldl_pick_keep: "has_value init \<Longrightarrow> foldl pick init vs = init"
  by (induction vs) (simp_all add: pick_simps)

lemma foldl_pick_first:
  "\<not> has_value init \<Longrightarrow> i < length vs \<Longrightarrow> has_value (vs ! i) \<Longrightarrow>
   \<forall>j<i. \<not> has_value (vs ! j) \<Longrightarrow> foldl pick init vs = vs ! i"
proof (induction vs arbitrary: i init)
  case Nil
  then show ?case by simp
next
  case (Cons v vs)
  show ?case
  proof (cases i)
    case 0
    with Cons.prems show ?thesis by (simp add: pick_simps foldl_pick_keep)
  next
    case (Suc n)
    with Cons.prems have nv: "\<not> has_value v" by auto
    have "foldl pick v vs = vs ! n"
      using Cons.prems Suc nv by (intro Cons.IH) auto
    with Cons.prems Suc show ?thesis by (simp add: pick_simps)
  qed
qed

lemma add_members_fresh:
  "fst (add_members (acc, existing) new) = acc @ fresh existing new"
  by (induction new arbitrary: acc existing) simp_all

lemma fresh_append:
  "fresh seen (xs @ ys) = fresh seen xs @ fresh (seen \<union> member_key ` set xs) ys"
  by (induction xs arbitrary: seen) (simp_all add: insert_absorb)

lemma keys_fresh: "seen \<union> member_key ` set (fresh seen xs) = seen \<union> member_key ` set xs"
proof (induction xs arbitrary: seen)
  case Nil
  then show ?case by simp
next
  case (Cons x xs)
  show ?case
  proof (cases "member_key x \<in> seen")
    case True
    then show ?thesis using Cons.IH [of seen] by auto
  next
    case False
    then show ?thesis using Cons.IH [of "insert (member_key x) seen"] by auto
  qed
qed

lemma first_seen_snoc:
  "first_seen (cs @ [x]) =
     first_seen cs @ (if member_key x \<in> member_key ` set cs then [] else [x])"
proof -
  have a: "filter (\<lambda>i. member_key ((cs @ [x]) ! i) \<notin> member_key ` set (take i (cs @ [x]))) [0..<length cs]
         = filter (\<lambda>i. member_key (cs ! i) \<notin> member_key ` set (take i cs)) [0..<length cs]"
    by (rule filter_cong) (auto simp: nth_append)
  have b: "map (\<lambda>i. (cs @ [x]) ! i) (filter (\<lambda>i. member_key (cs ! i) \<notin> member_key ` set (take i cs)) [0..<length cs])
         = map (\<lambda>i. cs ! i) (filter (\<lambda>i. member_key (cs ! i) \<notin> member_key ` set (take i cs)) [0..<length cs])"
    by (rule map_cong) (auto simp: nth_append)
  show ?thesis
    unfolding first_seen_def using a b by simp
qed

lemma fresh_first_seen: "fresh {} cs = first_seen cs"
proof (induction cs rule: rev_induct)
  case Nil
  then show ?case by (simp add: first_seen_def)
next
  case (snoc x xs)
  then show ?case by (simp add: fresh_append first_seen_snoc)
qed

lemma merge_keys_all:
  "merge_keys merged f field_keys =
     (case iter_members (merged Other_members) of
        Inl e \<Rightarrow> Inl e
      | Inr cur \<Rightarrow>
          (case iter_members (or_empty (f Other_members)) of
             Inl e \<Rightarrow> Inl e
           | Inr new \<Rightarrow>
               Inr (\<lambda>k. if k = Other_members
                        then PList (fst (add_members (cur, member_key ` set cur) new))
                        else pick (merged k) (f k))))"
proof -
  have eq: "\<And>g h :: fields. (\<And>k. g k = h k) \<Longrightarrow> g = h" by (rule ext)
  show ?thesis
    unfolding field_keys_def
    apply (simp add: merge_key_def split: sum.splits)
    apply (intro allI impI conjI eq)
    subgoal for cur new k by (cases k) simp_all
    done
qed

lemma or_empty_list [simp]: "or_empty (PList ms) = PList ms"
  by (simp add: or_empty_def)

lemma merge_pages_result:
  "merged Other_members = PList cur \<Longrightarrow>
   \<forall>f \<in> set pages. \<exists>ms. f Other_members = PList ms \<Longrightarrow>
   \<exists>m. merge_pages merged pages = Inr m \<and>
       m Other_members =
         PList (cur @ fresh (member_key ` set cur) (concat (map page_members pages))) \<and>
       (\<forall>k. k \<noteq> Other_members \<longrightarrow> m k = foldl pick (merged k) (map (\<lambda>f. f k) pages))"
proof (induction pages arbitrary: merged cur)
  case Nil
  then show ?case by simp
next
  case (Cons f fs)
  from Cons.prems obtain ms where ms: "f Other_members = PList ms" by auto
  let ?cur' = "cur @ fresh (member_key ` set cur) ms"
  let ?m' = "\<lambda>k. if k = Other_members then PList ?cur' else pick (merged k) (f k)"
  have step: "merge_keys merged f field_keys = Inr ?m'"
    using Cons.prems(1) ms by (simp add: merge_keys_all add_members_fresh cong: if_cong)
  have "\<exists>m. merge_pages ?m' fs = Inr m \<and>
       m Other_members =
         PList (?cur' @ fresh (member_key ` set ?cur') (concat (map page_members fs))) \<and>
       (\<forall>k. k \<noteq> Other_members \<longrightarrow> m k = foldl pick (?m' k) (map (\<lambda>f. f k) fs))"
    using Cons.prems(2) by (intro Cons.IH) auto
  then obtain m where m: "merge_pages ?m' fs = Inr m"
    "m Other_members =
         PList (?cur' @ fresh (member_key ` set ?cur') (concat (map page_members fs)))"
    "\<forall>k. k \<noteq> Other_members \<longrightarrow> m k = foldl pick (?m' k) (map (\<lambda>f. f k) fs)"
    by blast
  have keys: "member_key ` (set cur \<union> set (fresh (member_key ` set cur) ms))
      = member_key ` set cur \<union> member_key ` set ms"
    using keys_fresh [of "member_key ` set cur" ms] by (simp only: image_Un)
  have "merge_pages merged (f # fs) = Inr m" using step m(1) by simp
  moreover have "m Other_members =
      PList (cur @ fresh (member_key ` set cur) (concat (map page_members (f # fs))))"
    using m(2) ms by (simp add: keys fresh_append page_members_def)
  moreover have "\<forall>k. k \<noteq> Other_members \<longrightarrow>
      m k = foldl pick (merged k) (map (\<lambda>f. f k) (f # fs))"
    using m(3) by simp
  ultimately show ?case by blast
qed

lemma merge_document_result:
  assumes "\<forall>f \<in> set pages. \<exists>ms. f Other_members = PList ms"
  shows "\<exists>m. merge_document pages = Inr (exclusivity m) \<and>
           m Other_members = PList (first_seen (concat (map page_members pages))) \<and>
           (\<forall>k. k \<noteq> Other_members \<longrightarrow> m k = foldl pick PNone (map (\<lambda>f. f k) pages))"
proof -
  have "blank_fields Other_members = PList []" by (simp add: blank_fields_def)
  from merge_pages_result [of blank_fields "[]" pages, OF this assms]
  obtain m where m: "merge_pages blank_fields pages = Inr m"
    "m Other_members = PList ([] @ fresh (member_key ` set []) (concat (map page_members pages)))"
    "\<forall>k. k \<noteq> Other_members \<longrightarrow> m k = foldl pick (blank_fields k) (map (\<lambda>f. f k) pages)"
    by blast
  have "merge_document pages = Inr (exclusivity m)"
    using m(1) by (simp add: merge_document_def)
  moreover have "m Other_members = PList (first_seen (concat (map page_members pages)))"
    using m(2) by (simp add: fresh_first_seen)
  moreover have "\<forall>k. k \<noteq> Other_members \<longrightarrow> m k = foldl pick PNone (map (\<lambda>f. f k) pages)"
    using m(3) by (simp add: blank_fields_def)
  ultimately show ?thesis by blast
qed

text \<open>
  Claim C3, as amended. Let every page hold a list under \<^verbatim>\<open>other_members\<close>. Then the merge
  returns a record, and for every key \<^verbatim>\<open>k\<close> other than \<^verbatim>\<open>other_members\<close> and every page
  \<^verbatim>\<open>i\<close> that is the earliest one whose value for \<^verbatim>\<open>k\<close> is set, the merged record holds that
  page's value under \<^verbatim>\<open>k\<close>, with one exception: under \<^verbatim>\<open>otfd\<close>, when that value is true and
  the merged \<^verbatim>\<open>scheduled_tribe\<close> is true, the merged record holds false (the exclusivity
  rule applied after the merge).
\<close>

theorem merge_first_wins:
  assumes "\<forall>f \<in> set pages. \<exists>ms. f Other_members = PList ms"
  shows "\<exists>merged. merge_document pages = Inr merged \<and>
    (\<forall>k i. k \<noteq> Other_members \<and> i < length pages \<and> has_value ((pages ! i) k) \<and>
            (\<forall>j<i. \<not> has_value ((pages ! j) k)) \<longrightarrow>
       merged k =
         (if k = Otfd \<and> (pages ! i) Otfd = PBool True \<and> merged Scheduled_tribe = PBool True
          then PBool False else (pages ! i) k))"
proof -
  from merge_document_result [OF assms]
  obtain m where m: "merge_document pages = Inr (exclusivity m)"
    "\<forall>k. k \<noteq> Other_members \<longrightarrow> m k = foldl pick PNone (map (\<lambda>f. f k) pages)"
    by blast
  have first: "m k = (pages ! i) k"
    if "k \<noteq> Other_members" "i < length pages" "has_value ((pages ! i) k)"
       "\<forall>j<i. \<not> has_value ((pages ! j) k)" for k i
  proof -
    have "foldl pick PNone (map (\<lambda>f. f k) pages) = map (\<lambda>f. f k) pages ! i"
      using that by (intro foldl_pick_first) (auto simp: has_value_def)
    with that m(2) show ?thesis by simp
  qed
  have "exclusivity m k =
         (if k = Otfd \<and> (pages ! i) Otfd = PBool True \<and> exclusivity m Scheduled_tribe = PBool True
          then PBool False else (pages ! i) k)"
    if "k \<noteq> Other_members" "i < length pages" "has_value ((pages ! i) k)"
       "\<forall>j<i. \<not> has_value ((pages ! j) k)" for k i
    using first [OF that] by (auto simp: exclusivity_def)
  with m(1) show ?thesis by blast
qed

theorem merge_first_wins_witness:
  "\<exists>merged. merge_document [blank_fields(Village := PStr ''x''), blank_fields(Village := PStr ''y'')]
       = Inr merged \<and> merged Village = PStr ''x''"
proof -
  let ?pages = "[blank_fields(Village := PStr ''x''), blank_fields(Village := PStr ''y'')]"
  have "\<forall>f \<in> set ?pages. \<exists>ms. f Other_members = PList ms"
    by (simp add: blank_fields_def)
  from merge_first_wins [OF this]
  obtain merged where m: "merge_document ?pages = Inr merged"
    and all: "\<forall>k i. k \<noteq> Other_members \<and> i < length ?pages \<and> has_value ((?pages ! i) k) \<and>
            (\<forall>j<i. \<not> has_value ((?pages ! j) k)) \<longrightarrow>
       merged k =
         (if k = Otfd \<and> (?pages ! i) Otfd = PBool True \<and> merged Scheduled_tribe = PBool True
          then PBool False else (?pages ! i) k)"
    by blast
  from all [rule_format, of Village 0] have "merged Village = PStr ''x''"
    by (simp add: has_value_def)
  with m show ?thesis by blast
qed

lemma merge_two_pages_example:
  "merge_document [blank_fields(Scheduled_tribe := PBool True), blank_fields(Otfd := PBool True)]
     = Inr (blank_fields(Scheduled_tribe := PBool True, Otfd := PBool False))"
proof -
  have "merge_pages blank_fields
          [blank_fields(Scheduled_tribe := PBool True), blank_fields(Otfd := PBool True)]
        = Inr (blank_fields(Scheduled_tribe := PBool True, Otfd := PBool True))"
    apply (simp add: merge_keys_all blank_fields_def)
    apply (rule ext)
    subgoal for k by (cases k) (simp_all add: pick_def)
    done
  moreover have "exclusivity (blank_fields(Scheduled_tribe := PBool True, Otfd := PBool True))
        = blank_fields(Scheduled_tribe := PBool True, Otfd := PBool False)"
    by (simp add: exclusivity_def)
  ultimately show ?thesis
    by (simp add: merge_document_def)
qed

text \<open>
  The claim as stated fails for the key \<^verbatim>\<open>otfd\<close>: page 1 sets only
  \<^verbatim>\<open>scheduled_tribe = True\<close>, page 2 is the earliest page with a set \<^verbatim>\<open>otfd\<close>, namely
  \<^verbatim>\<open>True\<close>, and the merged record holds \<^verbatim>\<open>otfd = False\<close>.
\<close>

theorem merge_first_wins_counterexample:
  "merge_document [blank_fields(Scheduled_tribe := PBool True), blank_fields(Otfd := PBool True)]
     = Inr (blank_fields(Scheduled_tribe := PBool True, Otfd := PBool False)) \<and>
   (blank_fields(Scheduled_tribe := PBool True)) Otfd = PNone \<and>
   (blank_fields(Otfd := PBool True)) Otfd = PBool True"
  by (simp add: merge_two_pages_example) (simp add: blank_fields_def)

text \<open>
  Claim C4. Let every page hold a list under \<^verbatim>\<open>other_members\<close>. Then the merge returns a
  record whose \<^verbatim>\<open>other_members\<close> is the concatenation of the pages' lists, in page order,
  from which every member whose \<^verbatim>\<open>(name, age)\<close> pair occurred earlier has been dropped.
  The witness is the example of the specification.
\<close>

theorem merge_members_union:
  assumes "\<forall>f \<in> set pages. \<exists>ms. f Other_members = PList ms"
  shows "\<exists>merged. merge_document pages = Inr merged \<and>
           merged Other_members = PList (first_seen (concat (map page_members pages)))"
proof -
  from merge_document_result [OF assms]
  obtain m where m: "merge_document pages = Inr (exclusivity m)"
    "m Other_members = PList (first_seen (concat (map page_members pages)))"
    by blast
  have "exclusivity m Other_members = m Other_members"
    by (simp add: exclusivity_def)
  with m show ?thesis by auto
qed

lemma first_seen_example:
  "first_seen [\<lparr>m_name = ''A'', m_age = Some 10\<rparr>, \<lparr>m_name = ''A'', m_age = Some 10\<rparr>,
               \<lparr>m_name = ''B'', m_age = None\<rparr>]
   = [\<lparr>m_name = ''A'', m_age = Some 10\<rparr>, \<lparr>m_name = ''B'', m_age = None\<rparr>]"
  by (simp add: fresh_first_seen [symmetric] member_key_def)

theorem merge_members_union_witness:
  "\<exists>merged. merge_document
       [blank_fields(Other_members := PList [\<lparr>m_name = ''A'', m_age = Some 10\<rparr>]),
        blank_fields(Other_members := PList [\<lparr>m_name = ''A'', m_age = Some 10\<rparr>,
                                             \<lparr>m_name = ''B'', m_age = None\<rparr>])] = Inr merged \<and>
     merged Other_members = PList [\<lparr>m_name = ''A'', m_age = Some 10\<rparr>, \<lparr>m_name = ''B'', m_age = None\<rparr>]"
  using merge_members_union
    [of "[blank_fields(Other_members := PList [\<lparr>m_name = ''A'', m_age = Some 10\<rparr>]),
          blank_fields(Other_members := PList [\<lparr>m_name = ''A'', m_age = Some 10\<rparr>,
                                               \<lparr>m_name = ''B'', m_age = None\<rparr>])]"]
  by (simp add: page_members_def first_seen_example)

section \<open>Properties of line grouping\<close>

lemma tdiv2_bounds:
  "2 * lo \<le> x \<Longrightarrow> lo \<le> tdiv x 2"
  "x \<le> 2 * hi \<Longrightarrow> tdiv x 2 \<le> hi"
  by (auto simp: tdiv_def)

lemma median_int_bounds:
  assumes "vals \<noteq> []"
  shows "(\<forall>v \<in> set vals. lo \<le> v) \<Longrightarrow> lo \<le> median_int vals"
    and "(\<forall>v \<in> set vals. v \<le> hi) \<Longrightarrow> median_int vals \<le> hi"
proof -
  let ?s = "sort vals"
  let ?n = "length ?s"
  have n: "0 < ?n" using assms by simp
  have mem: "?s ! i \<in> set vals" if "i < ?n" for i
    using that nth_mem [of i ?s] by simp
  have a: "?s ! (?n div 2) \<in> set vals" using n by (intro mem) simp
  have b: "?s ! (?n div 2 - 1) \<in> set vals" using n by (intro mem) (simp add: less_imp_diff_less)
  show "lo \<le> median_int vals" if "\<forall>v \<in> set vals. lo \<le> v"
  proof -
    from that a b have "lo \<le> ?s ! (?n div 2)" "lo \<le> ?s ! (?n div 2 - 1)" by auto
    then have "lo \<le> ?s ! (?n div 2)" "2 * lo \<le> ?s ! (?n div 2 - 1) + ?s ! (?n div 2)"
      by arith+
    then show ?thesis
      using n by (simp add: median_int_def Let_def tdiv2_bounds(1) del: length_sort)
  qed
  show "median_int vals \<le> hi" if "\<forall>v \<in> set vals. v \<le> hi"
  proof -
    from that a b have "?s ! (?n div 2) \<le> hi" "?s ! (?n div 2 - 1) \<le> hi" by auto
    then have "?s ! (?n div 2) \<le> hi" "?s ! (?n div 2 - 1) + ?s ! (?n div 2) \<le> 2 * hi"
      by arith+
    then show ?thesis
      using n by (simp add: median_int_def Let_def tdiv2_bounds(2) del: length_sort)
  qed
qed

lemma median_int_single [simp]: "median_int [v] = v"
  by (simp add: median_int_def)

lemma all_items_Nil [simp]: "all_items [] = []"
  by (simp add: all_items_def)

lemma place_token_mset:
  "place_token y_tol it lines = Some lines' \<Longrightarrow>
   mset (all_items lines') = mset (all_items lines) + {#it#}"
  by (induction lines arbitrary: lines') (auto simp: all_items_def split: if_splits)

lemma add_token_mset:
  "mset (all_items (add_token y_tol lines it)) = mset (all_items lines) + {#it#}"
  by (auto simp: add_token_def all_items_def dest: place_token_mset [unfolded all_items_def]
           split: option.splits)

lemma foldl_add_token_mset:
  "mset (all_items (foldl (add_token y_tol) lines xs)) = mset (all_items lines) + mset xs"
  by (induction xs arbitrary: lines) (simp_all add: add_token_mset)

lemma all_items_sorted_lines:
  "mset (all_items (map (\<lambda>li. li\<lparr>l_items := sort_key left_x (l_items li)\<rparr>) lines))
     = mset (all_items lines)"
  by (induction lines) (simp_all add: all_items_def)

lemma place_token_frozen:
  assumes "\<forall>a \<in> set pre. l_y a + y_tol < mid_y it" "0 \<le> y_tol"
  shows "place_token y_tol it (pre @ rest) = map_option ((@) pre) (place_token y_tol it rest)"
  using assms
proof (induction pre)
  case Nil
  then show ?case by (simp add: option.map_ident)
next
  case (Cons a pre)
  then have "\<not> \<bar>l_y a - mid_y it\<bar> \<le> y_tol" by auto
  with Cons show ?case by (simp add: option.map_comp comp_def)
qed

lemma lines_inv_sorted:
  assumes "lines_inv y_tol c lines"
  shows "sorted (map l_y lines)"
proof (cases "lines = []")
  case True
  then show ?thesis by simp
next
  case False
  then have split: "lines = butlast lines @ [last lines]" by simp
  from assms False have inv:
    "sorted (map l_y (butlast lines))"
    "\<forall>a \<in> set (butlast lines). \<forall>v \<in> set (y_vals (last lines)). l_y a \<le> v"
    "y_vals (last lines) \<noteq> []"
    "l_y (last lines) = median_int (y_vals (last lines))"
    by (auto simp: lines_inv_def)
  have "l_y a \<le> l_y (last lines)" if "a \<in> set (butlast lines)" for a
    using inv(2,3,4) that median_int_bounds(1) [of "y_vals (last lines)" "l_y a"] by auto
  with inv(1) have "sorted (map l_y (butlast lines @ [last lines]))"
    by (auto simp: sorted_append)
  with split show ?thesis by simp
qed

lemma add_token_inv:
  assumes inv: "lines_inv y_tol c lines" and ge: "c \<le> mid_y it" and tol: "0 \<le> y_tol"
  shows "lines_inv y_tol (mid_y it) (add_token y_tol lines it)"
proof (cases "lines = []")
  case True
  then show ?thesis by (simp add: add_token_def lines_inv_def)
next
  case False
  define pre where "pre = butlast lines"
  define L where "L = last lines"
  have split: "lines = pre @ [L]" using False by (simp add: pre_def L_def)
  from inv False have I:
    "sorted (map l_y pre)"
    "\<forall>a \<in> set pre. l_y a + y_tol < c \<and> (\<forall>v \<in> set (y_vals L). l_y a \<le> v)"
    "y_vals L \<noteq> []"
    "l_y L = median_int (y_vals L)"
    "\<forall>v \<in> set (y_vals L). v \<le> c"
    by (auto simp: lines_inv_def pre_def L_def)
  have frozen: "\<forall>a \<in> set pre. l_y a + y_tol < mid_y it"
    using I(2) ge by auto
  have place: "place_token y_tol it (pre @ [L]) = map_option ((@) pre) (place_token y_tol it [L])"
    by (rule place_token_frozen [OF frozen tol])
  have Lle: "l_y L \<le> mid_y it"
    using median_int_bounds(2) [OF I(3), of c] I(4,5) ge by auto
  have preL: "l_y a \<le> l_y L" if "a \<in> set pre" for a
    using median_int_bounds(1) [OF I(3), of "l_y a"] I(2,4) that by auto
  show ?thesis
  proof (cases "\<bar>l_y L - mid_y it\<bar> \<le> y_tol")
    case True
    define L' where "L' = L\<lparr>l_items := l_items L @ [it], y_vals := y_vals L @ [mid_y it],
                              l_y := median_int (y_vals L @ [mid_y it])\<rparr>"
    have res: "add_token y_tol lines it = pre @ [L']"
      using True by (simp add: add_token_def split place L'_def)
    have "\<forall>a \<in> set pre. l_y a + y_tol < mid_y it \<and> (\<forall>v \<in> set (y_vals L'). l_y a \<le> v)"
      using I(2) frozen tol by (auto simp: L'_def)
    moreover have "\<forall>v \<in> set (y_vals L'). v \<le> mid_y it"
      using I(5) ge by (auto simp: L'_def)
    moreover have "y_vals L' \<noteq> []" "l_y L' = median_int (y_vals L')"
      by (simp_all add: L'_def)
    ultimately show ?thesis
      using I(1) by (simp add: res lines_inv_def)
  next
    case False
    define N where "N = \<lparr>l_y = mid_y it, y_vals = [mid_y it], l_items = [it]\<rparr>"
    have res: "add_token y_tol lines it = (pre @ [L]) @ [N]"
      using False by (simp add: add_token_def split place N_def)
    have "sorted (map l_y (pre @ [L]))"
      using I(1) preL by (auto simp: sorted_append)
    moreover have "\<forall>a \<in> set (pre @ [L]). l_y a + y_tol < mid_y it \<and> (\<forall>v \<in> set (y_vals N). l_y a \<le> v)"
      using frozen False Lle tol by (auto simp: N_def)
    moreover have "y_vals N \<noteq> []" "l_y N = median_int (y_vals N)" "\<forall>v \<in> set (y_vals N). v \<le> mid_y it"
      by (simp_all add: N_def)
    ultimately show ?thesis
      unfolding res lines_inv_def by (simp del: append_assoc)
  qed
qed

lemma foldl_add_token_inv:
  assumes "sorted (map mid_y xs)" "\<forall>x \<in> set xs. c \<le> mid_y x" "lines_inv y_tol c lines" "0 \<le> y_tol"
  shows "\<exists>c'. lines_inv y_tol c' (foldl (add_token y_tol) lines xs)"
  using assms
proof (induction xs arbitrary: c lines)
  case Nil
  then show ?case by auto
next
  case (Cons x xs)
  have "lines_inv y_tol (mid_y x) (add_token y_tol lines x)"
    using Cons.prems by (intro add_token_inv) auto
  moreover have "sorted (map mid_y xs)" "\<forall>z \<in> set xs. mid_y x \<le> mid_y z"
    using Cons.prems(1) by auto
  ultimately show ?case
    using Cons.IH [of "mid_y x" "add_token y_tol lines x"] Cons.prems(4) by simp
qed

text \<open>
  Claim C5. For every token list and page height, the lines returned by
  \<^verbatim>\<open>group_by_lines\<close> hold exactly the tokens of the input, each as often as the input does
  (every token lies in exactly one line); the centres of the lines are non-decreasing in
  output order; and within each line the left edges of the tokens are non-decreasing.
\<close>

theorem group_by_lines_partition:
  "mset (all_items (group_by_lines items page_h)) = mset items \<and>
   sorted (map l_y (group_by_lines items page_h)) \<and>
   (\<forall>li \<in> set (group_by_lines items page_h). sorted (map left_x (l_items li)))"
proof (cases "items = []")
  case True
  then show ?thesis by (simp add: group_by_lines_def all_items_def)
next
  case False
  let ?tol = "max 10 (tdiv page_h 50)"
  let ?lines = "foldl (add_token ?tol) [] (sort_key mid_y items)"
  have g: "group_by_lines items page_h =
           map (\<lambda>li. li\<lparr>l_items := sort_key left_x (l_items li)\<rparr>) ?lines"
    using False by (simp add: group_by_lines_def Let_def)
  have "mset (all_items (group_by_lines items page_h)) = mset items"
    unfolding g by (simp add: all_items_sorted_lines foldl_add_token_mset)
  moreover have "sorted (map l_y (group_by_lines items page_h))"
  proof -
    have "\<exists>c'. lines_inv ?tol c' ?lines"
    proof (cases "sort_key mid_y items")
      case Nil
      then show ?thesis by (auto simp: lines_inv_def)
    next
      case (Cons x xs)
      have "sorted (map mid_y (sort_key mid_y items))" by simp
      then have "\<forall>z \<in> set (sort_key mid_y items). mid_y x \<le> mid_y z"
        unfolding Cons by auto
      moreover have "lines_inv ?tol (mid_y x) []" by (simp add: lines_inv_def)
      ultimately show ?thesis
        by (intro foldl_add_token_inv [of _ "mid_y x"]) auto
    qed
    then have "sorted (map l_y ?lines)" by (auto dest: lines_inv_sorted)
    then show ?thesis by (simp add: g comp_def)
  qed
  moreover have "\<forall>li \<in> set (group_by_lines items page_h). sorted (map left_x (l_items li))"
    by (auto simp: g)
  ultimately show ?thesis by blast
qed

lemma group_by_lines_example:
  "group_by_lines
     [\<lparr>t_text = ''b'', t_bbox = quad_from_xywh 50 0 10 10\<rparr>,
      \<lparr>t_text = ''c'', t_bbox = quad_from_xywh 0 30 10 10\<rparr>,
      \<lparr>t_text = ''a'', t_bbox = quad_from_xywh 0 2 10 10\<rparr>] 400
   = [\<lparr>l_y = 6, y_vals = [5, 7],
       l_items = [\<lparr>t_text = ''a'', t_bbox = quad_from_xywh 0 2 10 10\<rparr>,
                  \<lparr>t_text = ''b'', t_bbox = quad_from_xywh 50 0 10 10\<rparr>]\<rparr>,
      \<lparr>l_y = 35, y_vals = [35],
       l_items = [\<lparr>t_text = ''c'', t_bbox = quad_from_xywh 0 30 10 10\<rparr>]\<rparr>]"
  by code_simp

theorem group_by_lines_partition_witness:
  "mset (all_items
     [\<lparr>l_y = 6, y_vals = [5, 7],
       l_items = [\<lparr>t_text = ''a'', t_bbox = quad_from_xywh 0 2 10 10\<rparr>,
                  \<lparr>t_text = ''b'', t_bbox = quad_from_xywh 50 0 10 10\<rparr>]\<rparr>,
      \<lparr>l_y = 35, y_vals = [35],
       l_items = [\<lparr>t_text = ''c'', t_bbox = quad_from_xywh 0 30 10 10\<rparr>]\<rparr>])
   = mset [\<lparr>t_text = ''b'', t_bbox = quad_from_xywh 50 0 10 10\<rparr>,
           \<lparr>t_text = ''c'', t_bbox = quad_from_xywh 0 30 10 10\<rparr>,
           \<lparr>t_text = ''a'', t_bbox = quad_from_xywh 0 2 10 10\<rparr>] \<and>
   sorted [6, 35 :: int] \<and>
   sorted (map left_x [\<lparr>t_text = ''a'', t_bbox = quad_from_xywh 0 2 10 10\<rparr>,
                       \<lparr>t_text = ''b'', t_bbox = quad_from_xywh 50 0 10 10\<rparr>])"
  using group_by_lines_partition
    [of "[\<lparr>t_text = ''b'', t_bbox = quad_from_xywh 50 0 10 10\<rparr>,
          \<lparr>t_text = ''c'', t_bbox = quad_from_xywh 0 30 10 10\<rparr>,
          \<lparr>t_text = ''a'', t_bbox = quad_from_xywh 0 2 10 10\<rparr>]" 400]
  unfolding group_by_lines_example
  by simp

section \<open>The matcher and what a pattern matches\<close>

text \<open>
  The recursive equations of the three scanning loops are applied by hand below, and
  by the code equations in the evaluations.
\<close>

declare re_search_from.simps [simp del] re_sub_from.simps [simp del]
  re_finditer_from.simps [simp del]

lemma last_char_append: "last_char pv (m1 @ m2) = last_char (last_char pv m1) m2"
  by (simp add: last_char_def)

lemma take_takeWhile_all: "j \<le> length (takeWhile P s) \<Longrightarrow> list_all P (take j s)"
proof (induction s arbitrary: j)
  case Nil
  then show ?case by simp
next
  case (Cons c s)
  then show ?case by (cases j) (auto split: if_splits)
qed

lemma length_takeWhile_ge: "list_all P m \<Longrightarrow> length m \<le> length (takeWhile P (m @ rest))"
  by (induction m) auto

lemma rx_match_sound:
  "(pv', rest, g') \<in> set (rx_match r (pv, s, g)) \<Longrightarrow>
   \<exists>m. s = m @ rest \<and> accepts r pv m rest \<and> pv' = last_char pv m"
proof (induction r arbitrary: pv s g pv' rest g')
  case (Chars k)
  then show ?case by (auto simp: last_char_def split: list.splits if_splits)
next
  case Eps
  then show ?case by (auto simp: last_char_def)
next
  case (Seq a b)
  from Seq.prems obtain pv1 s1 g1 where
    a: "(pv1, s1, g1) \<in> set (rx_match a (pv, s, g))" and
    b: "(pv', rest, g') \<in> set (rx_match b (pv1, s1, g1))"
    by auto
  from Seq.IH(1) [OF a] obtain m1 where
    m1: "s = m1 @ s1" "accepts a pv m1 s1" "pv1 = last_char pv m1" by blast
  from Seq.IH(2) [OF b] obtain m2 where
    m2: "s1 = m2 @ rest" "accepts b pv1 m2 rest" "pv' = last_char pv1 m2" by blast
  have "accepts (Seq a b) pv (m1 @ m2) rest"
    using m1 m2 by (auto intro!: exI [of _ "length m1"])
  then show ?case
    using m1 m2 by (auto simp: last_char_append intro!: exI [of _ "m1 @ m2"])
next
  case (Alt a b)
  from Alt.prems consider "(pv', rest, g') \<in> set (rx_match a (pv, s, g))"
    | "(pv', rest, g') \<in> set (rx_match b (pv, s, g))" by auto
  then show ?case
  proof cases
    case 1
    from Alt.IH(1) [OF this] show ?thesis by auto
  next
    case 2
    from Alt.IH(2) [OF this] show ?thesis by auto
  qed
next
  case (Rep k lo hi)
  define avail where "avail = length (takeWhile (in_cls k) s)"
  define n where "n = (case hi of None \<Rightarrow> avail | Some h \<Rightarrow> min h avail)"
  have "(pv', rest, g') \<in> (\<lambda>j. (last_char pv (take j s), drop j s, g)) ` set (rev [lo..<Suc n])"
    using Rep.prems unfolding n_def avail_def rx_match.simps Let_def set_map .
  then obtain j where jmem: "j \<in> set (rev [lo..<Suc n])"
    and jeq: "(pv', rest, g') = (last_char pv (take j s), drop j s, g)"
    by blast
  from jmem jeq have
    j: "lo \<le> j" "j \<le> n" "pv' = last_char pv (take j s)" "rest = drop j s"
    by auto
  have jn: "j \<le> avail" using j(2) by (auto simp: n_def split: option.splits)
  then have "list_all (in_cls k) (take j s)"
    unfolding avail_def by (rule take_takeWhile_all)
  moreover have "j \<le> length s"
    using jn length_takeWhile_le [of "in_cls k" s] by (simp add: avail_def)
  moreover have "case hi of None \<Rightarrow> True | Some h \<Rightarrow> j \<le> h"
    using j(2) by (auto simp: n_def split: option.splits)
  ultimately have "accepts (Rep k lo hi) pv (take j s) rest"
    using j(1) by (auto split: option.splits)
  then show ?case
    using j by (auto intro!: exI [of _ "take j s"])
next
  case WordB
  then show ?case by (auto simp: last_char_def split: if_splits)
next
  case Eos
  then show ?case by (auto simp: last_char_def split: if_splits)
next
  case (Grp n r)
  from Grp.prems obtain g0 where "(pv', rest, g0) \<in> set (rx_match r (pv, s, g))"
    by auto
  from Grp.IH [OF this] show ?case by auto
qed

lemma rx_match_complete:
  "accepts r pv m rest \<Longrightarrow>
   \<exists>g'. (last_char pv m, rest, g') \<in> set (rx_match r (pv, m @ rest, g))"
proof (induction r arbitrary: pv m rest g)
  case (Chars k)
  then show ?case by (auto simp: last_char_def split: list.splits)
next
  case Eps
  then show ?case by (auto simp: last_char_def)
next
  case (Seq a b)
  from Seq.prems obtain j where j: "j \<le> length m"
    "accepts a pv (take j m) (drop j m @ rest)"
    "accepts b (last_char pv (take j m)) (drop j m) rest"
    by auto
  from Seq.IH(1) [OF j(2), of g] obtain g1 where
    g1: "(last_char pv (take j m), drop j m @ rest, g1) \<in>
         set (rx_match a (pv, take j m @ drop j m @ rest, g))" by blast
  from Seq.IH(2) [OF j(3), of g1] obtain g2 where
    g2: "(last_char (last_char pv (take j m)) (drop j m), rest, g2) \<in>
         set (rx_match b (last_char pv (take j m), drop j m @ rest, g1))" by blast
  have eq: "last_char (last_char pv (take j m)) (drop j m) = last_char pv m"
    using last_char_append [of pv "take j m" "drop j m"] by simp
  have "take j m @ drop j m @ rest = m @ rest" by simp
  with g1 g2 eq show ?case
    by (auto intro!: exI [of _ g2] bexI [of _ "(last_char pv (take j m), drop j m @ rest, g1)"])
next
  case (Alt a b)
  then show ?case by fastforce
next
  case (Rep k lo hi)
  define avail where "avail = length (takeWhile (in_cls k) (m @ rest))"
  define n where "n = (case hi of None \<Rightarrow> avail | Some h \<Rightarrow> min h avail)"
  from Rep.prems have all: "list_all (in_cls k) m" and lo: "lo \<le> length m"
    and hi: "case hi of None \<Rightarrow> True | Some h \<Rightarrow> length m \<le> h"
    by auto
  have "length m \<le> avail"
    unfolding avail_def using all by (rule length_takeWhile_ge)
  with hi have "length m \<le> n" by (auto simp: n_def split: option.splits)
  with lo have "length m \<in> set (rev [lo..<Suc n])" by auto
  then have "(last_char pv (take (length m) (m @ rest)), drop (length m) (m @ rest), g)
             \<in> set (rx_match (Rep k lo hi) (pv, m @ rest, g))"
    unfolding rx_match.simps Let_def avail_def [symmetric] n_def [symmetric] set_map
    by (rule imageI)
  then show ?case by auto
next
  case WordB
  then show ?case by (auto simp: last_char_def)
next
  case Eos
  then show ?case by (auto simp: last_char_def)
next
  case (Grp n r)
  from Grp.prems have "accepts r pv m rest" by simp
  from Grp.IH [OF this, of g] obtain g0 where
    "(last_char pv m, rest, g0) \<in> set (rx_match r (pv, m @ rest, g))" by blast
  then have "(last_char pv m, rest, (n, take (length (m @ rest) - length rest) (m @ rest)) # g0)
             \<in> set (rx_match (Grp n r) (pv, m @ rest, g))"
    by (auto intro!: rev_image_eqI)
  then show ?case by blast
qed

lemma re_match_at_None_iff:
  "re_match_at r s i = None \<longleftrightarrow>
   \<not> (\<exists>m rest. drop i s = m @ rest \<and> accepts r (prev_char s i) m rest)"
proof -
  let ?st = "(prev_char s i, drop i s, [] :: caps)"
  have a: "re_match_at r s i = None \<longleftrightarrow> rx_match r ?st = []"
    by (auto simp: re_match_at_def prev_char_def split: list.splits)
  have b: "rx_match r ?st \<noteq> [] \<longleftrightarrow>
           (\<exists>m rest. drop i s = m @ rest \<and> accepts r (prev_char s i) m rest)"
  proof
    assume "rx_match r ?st \<noteq> []"
    then obtain pv' rest g' where "(pv', rest, g') \<in> set (rx_match r ?st)"
      by (cases "rx_match r ?st") auto
    from rx_match_sound [OF this]
    show "\<exists>m rest. drop i s = m @ rest \<and> accepts r (prev_char s i) m rest" by blast
  next
    assume "\<exists>m rest. drop i s = m @ rest \<and> accepts r (prev_char s i) m rest"
    then obtain m rest where mr: "drop i s = m @ rest" "accepts r (prev_char s i) m rest"
      by blast
    from rx_match_complete [OF mr(2), of "[]"] mr(1)
    show "rx_match r ?st \<noteq> []" by auto
  qed
  from a b show ?thesis by blast
qed

lemma re_search_from_None:
  "re_search_from r s i = None \<longleftrightarrow> (\<forall>j. i \<le> j \<and> j \<le> length s \<longrightarrow> re_match_at r s j = None)"
proof (induction r s i rule: re_search_from.induct)
  case (1 r s i)
  show ?case
  proof (cases "length s < i")
    case True
    then show ?thesis by (subst re_search_from.simps) auto
  next
    case False
    show ?thesis
    proof (cases "re_match_at r s i")
      case None
      have step: "re_search_from r s i = re_search_from r s (Suc i)"
        using False None by (subst re_search_from.simps) simp
      have "(\<forall>j. i \<le> j \<and> j \<le> length s \<longrightarrow> re_match_at r s j = None) \<longleftrightarrow>
            (\<forall>j. Suc i \<le> j \<and> j \<le> length s \<longrightarrow> re_match_at r s j = None)"
      proof
        assume "\<forall>j. i \<le> j \<and> j \<le> length s \<longrightarrow> re_match_at r s j = None"
        then show "\<forall>j. Suc i \<le> j \<and> j \<le> length s \<longrightarrow> re_match_at r s j = None" by auto
      next
        assume h: "\<forall>j. Suc i \<le> j \<and> j \<le> length s \<longrightarrow> re_match_at r s j = None"
        show "\<forall>j. i \<le> j \<and> j \<le> length s \<longrightarrow> re_match_at r s j = None"
        proof (intro allI impI)
          fix j assume j: "i \<le> j \<and> j \<le> length s"
          show "re_match_at r s j = None"
          proof (cases "j = i")
            case True
            with None show ?thesis by simp
          next
            case False
            with j have "Suc i \<le> j" by arith
            with h j show ?thesis by blast
          qed
        qed
      qed
      with step "1.IH" [OF False None] show ?thesis by simp
    next
      case (Some a)
      have "re_search_from r s i \<noteq> None"
        using False Some by (subst re_search_from.simps) (simp split: prod.splits)
      moreover have "\<not> (\<forall>j. i \<le> j \<and> j \<le> length s \<longrightarrow> re_match_at r s j = None)"
        using False Some by (intro notI) (auto dest!: spec [of _ i])
      ultimately show ?thesis by blast
    qed
  qed
qed

lemma re_search_from_Some:
  "re_search_from r s i = Some (b, e, g) \<Longrightarrow>
   i \<le> b \<and> b \<le> length s \<and> re_match_at r s b \<noteq> None \<and>
   (\<forall>j. i \<le> j \<and> j < b \<longrightarrow> re_match_at r s j = None)"
proof (induction r s i rule: re_search_from.induct)
  case (1 r s i)
  show ?case
  proof (cases "length s < i")
    case True
    with "1.prems" show ?thesis by (subst (asm) re_search_from.simps) simp
  next
    case False
    show ?thesis
    proof (cases "re_match_at r s i")
      case None
      with "1.prems" False have "re_search_from r s (Suc i) = Some (b, e, g)"
        by (subst (asm) re_search_from.simps) simp
      from "1.IH" [OF False None this] have ih:
        "Suc i \<le> b" "b \<le> length s" "re_match_at r s b \<noteq> None"
        "\<forall>j. Suc i \<le> j \<and> j < b \<longrightarrow> re_match_at r s j = None" by auto
      have "re_match_at r s j = None" if "i \<le> j \<and> j < b" for j
      proof (cases "j = i")
        case True
        with None show ?thesis by simp
      next
        case False
        with that have "Suc i \<le> j" by arith
        with ih(4) that show ?thesis by blast
      qed
      with ih show ?thesis by auto
    next
      case (Some a)
      obtain e' g' where a: "a = (e', g')" by (cases a)
      from "1.prems" False Some a have "b = i"
        by (subst (asm) re_search_from.simps) simp
      with False Some show ?thesis by auto
    qed
  qed
qed

lemma accepts_plain: "plain r \<Longrightarrow> accepts r pv m af = lang r m"
proof (induction r arbitrary: pv m af)
  case (Seq a b)
  then have "accepts a x y z = lang a y" "accepts b x y z = lang b y" for x y z
    by simp_all
  then show ?case by simp
qed simp_all

lemma lang_nonnull: "nonnull r \<Longrightarrow> lang r m \<Longrightarrow> m \<noteq> []"
proof (induction r arbitrary: m)
  case (Seq a b)
  show ?case
  proof
    assume "m = []"
    with Seq.prems(2) have "lang a []" "lang b []" by auto
    with Seq.prems(1) Seq.IH show False by auto
  qed
next
  case (Alt a b)
  then show ?case by auto
qed (auto split: list.splits)

lemma cls_word_in: "cls_word k \<Longrightarrow> in_cls k c \<Longrightarrow> is_word c"
  by (cases k) (auto simp: list_all_iff)

lemma lang_firstw: "firstw r \<Longrightarrow> lang r m \<Longrightarrow> m \<noteq> [] \<Longrightarrow> is_word (hd m)"
proof (induction r arbitrary: m)
  case (Chars k)
  then show ?case by (auto split: list.splits dest: cls_word_in)
next
  case (Seq a b)
  from Seq.prems obtain j where j: "j \<le> length m" "lang a (take j m)" "lang b (drop j m)"
    by auto
  show ?case
  proof (cases "take j m = []")
    case True
    then have j0: "j = 0" using Seq.prems(3) by auto
    have "\<not> nonnull a" using lang_nonnull [OF _ j(2)] True by auto
    with Seq.prems(1) have "firstw b" by simp
    from Seq.IH(2) [OF this j(3)] j0 Seq.prems(3) show ?thesis by simp
  next
    case False
    then have "hd (take j m) = hd m" by (cases m; cases j) auto
    moreover from Seq.prems(1) have "firstw a" by simp
    from Seq.IH(1) [OF this j(2) False] have "is_word (hd (take j m))" .
    ultimately show ?thesis by simp
  qed
next
  case (Alt a b)
  then show ?case by auto
next
  case (Rep k lo hi)
  then show ?case by (cases m) (auto dest: cls_word_in)
next
  case (Grp n r)
  then show ?case by simp
qed simp_all

lemma lang_lastw: "lastw r \<Longrightarrow> lang r m \<Longrightarrow> m \<noteq> [] \<Longrightarrow> is_word (last m)"
proof (induction r arbitrary: m)
  case (Chars k)
  then show ?case by (auto split: list.splits dest: cls_word_in)
next
  case (Seq a b)
  from Seq.prems obtain j where j: "j \<le> length m" "lang a (take j m)" "lang b (drop j m)"
    by auto
  show ?case
  proof (cases "drop j m = []")
    case True
    then have tk: "take j m = m" by simp
    have "\<not> nonnull b" using lang_nonnull [OF _ j(3)] True by auto
    with Seq.prems(1) have "lastw a" by simp
    from Seq.IH(1) [OF this j(2)] tk Seq.prems(3) show ?thesis by simp
  next
    case False
    then have "last (drop j m) = last m" by simp
    moreover from Seq.prems(1) have "lastw b" by simp
    from Seq.IH(2) [OF this j(3) False] have "is_word (last (drop j m))" .
    ultimately show ?thesis by simp
  qed
next
  case (Alt a b)
  then show ?case by auto
next
  case (Rep k lo hi)
  then have "list_all (in_cls k) m" "cls_word k" by auto
  with Rep.prems(3) show ?case
    by (auto simp: list_all_iff dest: cls_word_in)
next
  case (Grp n r)
  then show ?case by simp
qed simp_all

lemma wordy_stop_labels: "wordy (Grp 1 stop_labels)"
  by code_simp

lemma wordy_yes_no: "wordy (lit ''yes'')" "wordy (lit ''no'')"
  by code_simp+

lemma STOP_LABEL_PAT_framed: "STOP_LABEL_PAT = framed (Grp 1 stop_labels)"
  by (simp add: STOP_LABEL_PAT_def framed_def)

lemma wordy_edges:
  assumes "wordy r" "lang r m"
  shows "m \<noteq> []" "is_word (hd m)" "is_word (last m)"
proof -
  from assms show ne: "m \<noteq> []" by (auto simp: wordy_def dest: lang_nonnull)
  from assms ne show "is_word (hd m)" by (auto simp: wordy_def dest: lang_firstw)
  from assms ne show "is_word (last m)" by (auto simp: wordy_def dest: lang_lastw)
qed

lemma accepts_framed:
  assumes "wordy r"
  shows "accepts (framed r) pv m af \<longleftrightarrow>
         lang r m \<and> \<not> (case pv of None \<Rightarrow> False | Some c \<Rightarrow> is_word c) \<and>
         (af = [] \<or> \<not> is_word (hd af))"
proof
  assume "accepts (framed r) pv m af"
  then have "\<exists>j \<le> length m. (take j m = [] \<and> at_boundary pv (drop j m @ af)) \<and>
      (\<exists>j' \<le> length (drop j m).
         accepts r (last_char pv (take j m)) (take j' (drop j m)) (drop j' (drop j m) @ af) \<and>
         (drop j' (drop j m) = [] \<and>
          at_boundary (last_char (last_char pv (take j m)) (take j' (drop j m))) af))"
    unfolding framed_def accepts.simps .
  then obtain j j' where j: "j \<le> length m" "take j m = []" "at_boundary pv (drop j m @ af)"
    and j': "j' \<le> length (drop j m)"
       "accepts r (last_char pv (take j m)) (take j' (drop j m)) (drop j' (drop j m) @ af)"
       "drop j' (drop j m) = []"
       "at_boundary (last_char (last_char pv (take j m)) (take j' (drop j m))) af"
    by blast
  from j(2) have dm: "drop j m = m" by (cases j) auto
  from j'(3) dm have tm: "take j' (drop j m) = m" by simp
  from j'(2) have acc: "accepts r pv m af"
    using j(2) tm j'(3) by (simp add: last_char_def)
  with assms have l: "lang r m" by (simp add: wordy_def accepts_plain)
  note e = wordy_edges [OF assms l]
  from j(3) dm e(1,2) have "\<not> (case pv of None \<Rightarrow> False | Some c \<Rightarrow> is_word c)"
    by (cases m) (auto simp: at_boundary_def)
  moreover from j'(4) j(2) tm e(1,3) have "af = [] \<or> \<not> is_word (hd af)"
    by (cases af) (auto simp: at_boundary_def last_char_def)
  ultimately show "lang r m \<and> \<not> (case pv of None \<Rightarrow> False | Some c \<Rightarrow> is_word c) \<and>
         (af = [] \<or> \<not> is_word (hd af))"
    using l by blast
next
  assume h: "lang r m \<and> \<not> (case pv of None \<Rightarrow> False | Some c \<Rightarrow> is_word c) \<and>
         (af = [] \<or> \<not> is_word (hd af))"
  then have l: "lang r m" by blast
  note e = wordy_edges [OF assms l]
  have b1: "at_boundary pv (m @ af)"
    using h e(1,2) by (cases m) (auto simp: at_boundary_def)
  have b2: "at_boundary (Some (last m)) af"
    using h e(3) by (cases af) (auto simp: at_boundary_def)
  have acc: "accepts r pv m af"
    using assms l by (simp add: wordy_def accepts_plain)
  have inner: "accepts (Seq r WordB) pv m af"
    using acc b2 e(1) by (auto simp: last_char_def intro!: exI [of _ "length m"])
  show "accepts (framed r) pv m af"
    unfolding framed_def accepts.simps(3) [of WordB]
    using inner b1 by (intro exI [of _ 0]) (simp add: last_char_def)
qed

lemma prev_char_word:
  "b \<le> length s \<Longrightarrow>
   (case prev_char s b of None \<Rightarrow> False | Some c \<Rightarrow> is_word c) \<longleftrightarrow>
   (take b s \<noteq> [] \<and> is_word (last (take b s)))"
proof (cases "b = 0")
  case True
  then show ?thesis by (simp add: prev_char_def)
next
  case False
  assume b: "b \<le> length s"
  with False have ne: "take b s \<noteq> []" by auto
  have "last (take b s) = take b s ! (length (take b s) - 1)"
    using ne by (rule last_conv_nth)
  also have "\<dots> = s ! (b - 1)" using b False by (simp add: min_absorb2)
  finally show ?thesis using False ne by (simp add: prev_char_def)
qed

lemma match_at_occ:
  assumes "wordy r" "b \<le> length s"
  shows "re_match_at (framed r) s b \<noteq> None \<longleftrightarrow> (\<exists>m v. occ r s (take b s) m v)"
proof -
  have "occ r s (take b s) m v \<longleftrightarrow>
        drop b s = m @ v \<and> accepts (framed r) (prev_char s b) m v" for m v
  proof -
    have "s = take b s @ m @ v \<longleftrightarrow> drop b s = m @ v"
      by (metis append_take_drop_id same_append_eq)
    then show ?thesis
      using prev_char_word [OF assms(2)] by (auto simp: occ_def accepts_framed [OF assms(1)])
  qed
  then show ?thesis by (simp add: re_match_at_None_iff)
qed

lemma occ_prefix: "occ r s u m v \<Longrightarrow> u = take (length u) s \<and> length u \<le> length s"
  by (auto simp: occ_def)

lemma search_None_occ:
  assumes "wordy r"
  shows "re_search (framed r) s = None \<longleftrightarrow> (\<forall>u m v. \<not> occ r s u m v)"
proof
  assume n: "re_search (framed r) s = None"
  show "\<forall>u m v. \<not> occ r s u m v"
  proof (intro allI notI)
    fix u m v assume o: "occ r s u m v"
    from occ_prefix [OF o] have u: "u = take (length u) s" "length u \<le> length s" by auto
    from o u(1) have "\<exists>m v. occ r s (take (length u) s) m v" by metis
    with match_at_occ [OF assms u(2)] have "re_match_at (framed r) s (length u) \<noteq> None"
      by simp
    moreover from n have "re_search_from (framed r) s 0 = None" by (simp only: re_search_def)
    then have "re_match_at (framed r) s (length u) = None"
      unfolding re_search_from_None using u(2) by blast
    ultimately show False by blast
  qed
next
  assume h: "\<forall>u m v. \<not> occ r s u m v"
  have "re_match_at (framed r) s j = None" if "j \<le> length s" for j
    using match_at_occ [OF assms that] h by blast
  then have "re_search_from (framed r) s 0 = None"
    unfolding re_search_from_None by blast
  then show "re_search (framed r) s = None"
    by (simp only: re_search_def)
qed

lemma search_Some_occ:
  assumes "wordy r" "re_search (framed r) s = Some (b, e, g)"
  shows "b \<le> length s" "\<exists>m v. occ r s (take b s) m v"
        "\<And>u m v. occ r s u m v \<Longrightarrow> b \<le> length u"
proof -
  from assms(2) have f: "re_search_from (framed r) s 0 = Some (b, e, g)"
    by (simp only: re_search_def)
  note s = re_search_from_Some [OF f]
  from s show b: "b \<le> length s" by simp
  from s match_at_occ [OF assms(1) b] show "\<exists>m v. occ r s (take b s) m v" by simp
  fix u m v assume o: "occ r s u m v"
  from occ_prefix [OF o] have u: "u = take (length u) s" "length u \<le> length s" by auto
  from o u(1) have "\<exists>m v. occ r s (take (length u) s) m v" by metis
  with match_at_occ [OF assms(1) u(2)] have "re_match_at (framed r) s (length u) \<noteq> None"
    by simp
  with s show "b \<le> length u" by (meson not_le_imp_less le0)
qed

lemma lang_Chars_Seq:
  "lang (Seq (Chars (In [c])) r) m \<longleftrightarrow> (\<exists>m'. m = c # m' \<and> lang r m')"
proof
  assume "lang (Seq (Chars (In [c])) r) m"
  then obtain j where j: "j \<le> length m" "lang (Chars (In [c])) (take j m)" "lang r (drop j m)"
    by auto
  from j(2) have "take j m = [c]" by (auto split: list.splits)
  then have "m = c # drop j m" by (metis append_Cons append_Nil append_take_drop_id)
  with j(3) show "\<exists>m'. m = c # m' \<and> lang r m'" by blast
next
  assume "\<exists>m'. m = c # m' \<and> lang r m'"
  then obtain m' where "m = c # m'" "lang r m'" by blast
  then show "lang (Seq (Chars (In [c])) r) m"
    by (auto intro!: exI [of _ 1])
qed

lemma lang_lit: "lang (lit w) m \<longleftrightarrow> m = w"
  unfolding lit_def
proof (induction w arbitrary: m rule: induct_list012)
  case 1
  then show ?case by auto
next
  case (2 c)
  then show ?case by (auto split: list.splits)
next
  case (3 c d w)
  have "seqs (map (\<lambda>c. Chars (In [c])) (c # d # w)) =
        Seq (Chars (In [c])) (seqs (map (\<lambda>c. Chars (In [c])) (d # w)))"
    by simp
  then show ?case
    using "3.IH"(2) by (simp only: lang_Chars_Seq) auto
qed

lemma yes_no_framed: "yes_pat = framed (lit ''yes'')" "no_pat = framed (lit ''no'')"
  by (simp_all add: yes_pat_def no_pat_def framed_def)

lemma search_word_isolated:
  assumes "wordy (lit w)"
  shows "re_search (framed (lit w)) t \<noteq> None \<longleftrightarrow> isolated w t"
proof -
  have a: "(\<exists>u m v. occ (lit w) t u m v) \<longleftrightarrow> isolated w t"
    by (auto simp: occ_def lang_lit isolated_def)
  have "re_search (framed (lit w)) t \<noteq> None \<longleftrightarrow> (\<exists>u m v. occ (lit w) t u m v)"
    using search_None_occ [OF assms, of t] by simp
  with a show ?thesis by simp
qed

section \<open>Properties of the stop-label cut\<close>

lemma space_not_word: "is_space c \<Longrightarrow> \<not> is_word c"
  by (auto simp: is_space_def is_word_def ws_chars_def word_chars_def lower_chars_def
                 upper_chars_def digit_chars_def)

lemma strip_decomp:
  "\<exists>w1 w2. s = w1 @ strip s @ w2 \<and> list_all is_space w1 \<and> list_all is_space w2"
proof -
  let ?t = "dropWhile is_space s"
  let ?w1 = "takeWhile is_space s"
  let ?w2 = "rev (takeWhile is_space (rev ?t))"
  have "?t = rev (takeWhile is_space (rev ?t) @ dropWhile is_space (rev ?t))"
    by (simp only: takeWhile_dropWhile_id rev_rev_ident)
  also have "\<dots> = rev (dropWhile is_space (rev ?t)) @ ?w2"
    by (simp only: rev_append)
  finally have t: "?t = strip s @ ?w2" by (simp only: strip_def)
  have "s = ?w1 @ ?t" by simp
  with t have "s = ?w1 @ strip s @ ?w2" by simp
  moreover have "list_all is_space ?w1"
    by (auto simp: list_all_iff dest: set_takeWhileD)
  moreover have "list_all is_space ?w2"
    by (auto simp: list_all_iff dest: set_takeWhileD)
  ultimately show ?thesis by blast
qed

lemma strip_edges:
  "strip s = [] \<or> (\<not> is_space (hd (strip s)) \<and> \<not> is_space (last (strip s)))"
proof (cases "strip s = []")
  case True
  then show ?thesis by simp
next
  case False
  let ?t = "dropWhile is_space s"
  let ?d = "dropWhile is_space (rev ?t)"
  have d: "?d \<noteq> []" using False by (simp add: strip_def)
  then have hd_d: "\<not> is_space (hd ?d)" by (rule hd_dropWhile)
  have last: "last (strip s) = hd ?d"
    using d by (simp add: strip_def last_rev)
  have t: "?t \<noteq> []"
  proof
    assume e: "?t = []"
    have "?d = []" unfolding e by simp
    with d show False by blast
  qed
  then have hd_t: "\<not> is_space (hd ?t)" by (rule hd_dropWhile)
  obtain w where w: "rev ?t = w @ ?d"
    using takeWhile_dropWhile_id [of is_space "rev ?t"] by metis
  then have "?t = rev ?d @ rev w"
    by (metis rev_append rev_rev_ident)
  then have "hd ?t = hd (rev ?d)" using d by (metis hd_append2 rev_is_Nil_conv)
  then have "hd (strip s) = hd ?t" by (simp add: strip_def)
  with hd_t hd_d last show ?thesis by simp
qed

lemma strip_fixed:
  assumes "s = [] \<or> (\<not> is_space (hd s) \<and> \<not> is_space (last s))"
  shows "strip s = s"
proof (cases "s = []")
  case True
  then show ?thesis by (simp add: strip_def)
next
  case False
  with assms have h: "\<not> is_space (hd s)" "\<not> is_space (last s)" by auto
  from False h(1) have a: "dropWhile is_space s = s" by (cases s) auto
  from False h(2) have "\<not> is_space (hd (rev s))" by (simp add: hd_rev)
  with False have "dropWhile is_space (rev s) = rev s" by (cases "rev s") auto
  with a show ?thesis by (simp add: strip_def)
qed

lemma strip_idem: "strip (strip s) = strip s"
  by (rule strip_fixed) (rule strip_edges)

lemma occ_in_stripped:
  assumes o: "occ r (strip p) u m v"
  shows "\<exists>u' v'. occ r p u' m v'"
proof -
  from strip_decomp [of p] obtain w1 w2 where
    w: "p = w1 @ strip p @ w2" "list_all is_space w1" "list_all is_space w2" by blast
  from o have sp: "strip p = u @ m @ v" and l: "lang r m"
    and lu: "u = [] \<or> \<not> is_word (last u)" and rv: "v = [] \<or> \<not> is_word (hd v)"
    by (auto simp: occ_def)
  have "p = (w1 @ u) @ m @ (v @ w2)" using w(1) sp by simp
  moreover have "w1 @ u = [] \<or> \<not> is_word (last (w1 @ u))"
  proof (cases "u = []")
    case True
    show ?thesis
    proof (cases "w1 = []")
      case True
      with \<open>u = []\<close> show ?thesis by simp
    next
      case False
      then have "is_space (last w1)" using w(2) by (auto simp: list_all_iff)
      with \<open>u = []\<close> show ?thesis by (auto dest: space_not_word)
    qed
  next
    case False
    with lu show ?thesis by simp
  qed
  moreover have "v @ w2 = [] \<or> \<not> is_word (hd (v @ w2))"
  proof (cases "v = []")
    case True
    show ?thesis
    proof (cases "w2 = []")
      case True
      with \<open>v = []\<close> show ?thesis by simp
    next
      case False
      then have "is_space (hd w2)" using w(3) by (cases w2) auto
      with \<open>v = []\<close> show ?thesis by (auto dest: space_not_word)
    qed
  next
    case False
    with rv show ?thesis by simp
  qed
  ultimately have "occ r p (w1 @ u) m (v @ w2)"
    using l unfolding occ_def by blast
  then show ?thesis by blast
qed

lemma no_occ_before_first:
  assumes w: "wordy r" and s: "re_search (framed r) s = Some (b, e, g)"
  shows "\<not> occ r (take b s) u m v"
proof
  assume o: "occ r (take b s) u m v"
  note f = search_Some_occ [OF w s]
  from f(2) obtain m0 v0 where o0: "occ r s (take b s) m0 v0" by blast
  then have s0: "s = take b s @ m0 @ v0" and l0: "lang r m0"
    and left0: "take b s = [] \<or> \<not> is_word (last (take b s))"
    by (auto simp: occ_def)
  note e0 = wordy_edges [OF w l0]
  from o have p: "take b s = u @ m @ v" and l: "lang r m"
    and lu: "u = [] \<or> \<not> is_word (last u)" and rv: "v = [] \<or> \<not> is_word (hd v)"
    by (auto simp: occ_def)
  note e = wordy_edges [OF w l]
  have v_ne: "v \<noteq> []"
  proof
    assume "v = []"
    with p e(1) have "take b s \<noteq> []" "last (take b s) = last m" by auto
    with left0 e(3) show False by simp
  qed
  have "s = u @ m @ (v @ m0 @ v0)" using s0 p by (metis append.assoc)
  moreover have "v @ m0 @ v0 = [] \<or> \<not> is_word (hd (v @ m0 @ v0))"
    using v_ne rv by simp
  ultimately have "occ r s u m (v @ m0 @ v0)"
    using l lu unfolding occ_def by blast
  from f(3) [OF this] have "b \<le> length u" .
  moreover have "length (take b s) = b" using f(1) by simp
  with p have "b = length u + length m + length v" by (metis length_append add.assoc)
  ultimately show False using e(1) by simp
qed

lemma no_occ_in_cut:
  assumes w: "wordy r"
  shows "\<not> occ r (strip (re_split_head (framed r) s)) u m v"
proof
  assume "occ r (strip (re_split_head (framed r) s)) u m v"
  from occ_in_stripped [OF this] obtain u' v' where
    o: "occ r (re_split_head (framed r) s) u' m v'" by blast
  show False
  proof (cases "re_search (framed r) s")
    case None
    then have "re_split_head (framed r) s = s" by (simp add: re_split_head_def)
    with o None search_None_occ [OF w, of s] show False by simp
  next
    case (Some a)
    obtain b e g where a: "a = (b, e, g)" by (cases a)
    with Some have "re_split_head (framed r) s = take b s" by (simp add: re_split_head_def)
    with o no_occ_before_first [OF w Some [unfolded a]] show False by simp
  qed
qed

text \<open>
  Claim C9. The stop-label cut is idempotent: cutting a text that has already been cut
  changes nothing.
\<close>

theorem cut_at_next_label_idempotent:
  "cut_at_next_label (cut_at_next_label s) = cut_at_next_label s"
proof -
  let ?r = "Grp 1 stop_labels"
  let ?c = "strip (re_split_head (framed ?r) s)"
  have "\<forall>u m v. \<not> occ ?r ?c u m v"
    using no_occ_in_cut [OF wordy_stop_labels] by blast
  then have "re_search (framed ?r) ?c = None"
    using search_None_occ [OF wordy_stop_labels, of ?c] by blast
  then have "re_split_head (framed ?r) ?c = ?c"
    by (simp add: re_split_head_def)
  then show ?thesis
    by (simp add: cut_at_next_label_def STOP_LABEL_PAT_framed strip_idem)
qed

lemma cut_example:
  "cut_at_next_label ''Ram Kumar  Village X'' = ''Ram Kumar''"
  by code_simp

theorem cut_at_next_label_idempotent_witness:
  "cut_at_next_label ''Ram Kumar  Village X'' = ''Ram Kumar'' \<and>
   cut_at_next_label ''Ram Kumar'' = ''Ram Kumar''"
  using cut_at_next_label_idempotent [of "''Ram Kumar  Village X''"]
  by (simp add: cut_example)

section \<open>Properties of the sanitizers and parsers\<close>

text \<open>
  Claim C6, as amended. The person-name sanitizer maps
  \<^verbatim>\<open>"sh. ram kumar house no 12 village x"\<close> to \<^verbatim>\<open>"sh. ram kumar"\<close>: the blacklist words and
  the digits are removed and the first three remaining tokens are kept; the full stop
  after \<^verbatim>\<open>sh\<close> is not among the characters the sanitizer removes.
\<close>

theorem sanitize_person_example:
  "sanitize_person_value ''sh. ram kumar house no 12 village x'' = ''sh. ram kumar''"
  by code_simp

text \<open>
  The value the claim states, \<^verbatim>\<open>"sh ram kumar"\<close>, is not what the sanitizer returns.
\<close>

theorem sanitize_person_counterexample:
  "sanitize_person_value ''sh. ram kumar house no 12 village x'' \<noteq> ''sh ram kumar''"
  by code_simp

lemma area_in_text_examples:
  "area_in_text habitation_kw 40 ''habitation 0.25 ha'' = Some (1 / 4)"
  "area_in_text habitation_kw 40 ''habitation 1 25 ha'' = Some (5 / 4)"
  by code_simp+

text \<open>
  Claim C7. With the habitation keyword and the default window of 40 characters, the
  area parser returns 0.25 when the only line's normalized text is
  \<^verbatim>\<open>"habitation 0.25 ha"\<close>, and 1.25 when it is \<^verbatim>\<open>"habitation 1 25 ha"\<close>.
\<close>

theorem area_parsing:
  "(normalize_text (join_texts (l_items li)) = ''habitation 0.25 ha'' \<longrightarrow>
      number_after_keyword_with_ha [li] habitation_kw 40 = Some (1 / 4)) \<and>
   (normalize_text (join_texts (l_items li)) = ''habitation 1 25 ha'' \<longrightarrow>
      number_after_keyword_with_ha [li] habitation_kw 40 = Some (5 / 4))"
  by (simp add: number_after_keyword_with_ha_def area_in_text_examples)

lemma area_lines_text:
  "normalize_text (join_texts [\<lparr>t_text = ''Habitation'', t_bbox = quad_from_xywh 10 100 90 20\<rparr>,
                          \<lparr>t_text = ''0.25'', t_bbox = quad_from_xywh 110 100 40 20\<rparr>,
                          \<lparr>t_text = ''Ha'', t_bbox = quad_from_xywh 160 100 20 20\<rparr>])
     = ''habitation 0.25 ha''"
  "normalize_text (join_texts [\<lparr>t_text = ''Habitation'', t_bbox = quad_from_xywh 10 100 90 20\<rparr>,
                          \<lparr>t_text = ''1'', t_bbox = quad_from_xywh 110 100 10 20\<rparr>,
                          \<lparr>t_text = ''25'', t_bbox = quad_from_xywh 130 100 20 20\<rparr>,
                          \<lparr>t_text = ''ha'', t_bbox = quad_from_xywh 160 100 20 20\<rparr>])
     = ''habitation 1 25 ha''"
  by code_simp+

theorem area_parsing_witness:
  "number_after_keyword_with_ha
     [\<lparr>l_y = 110, y_vals = [110, 110, 110],
       l_items = [\<lparr>t_text = ''Habitation'', t_bbox = quad_from_xywh 10 100 90 20\<rparr>,
                  \<lparr>t_text = ''0.25'', t_bbox = quad_from_xywh 110 100 40 20\<rparr>,
                  \<lparr>t_text = ''Ha'', t_bbox = quad_from_xywh 160 100 20 20\<rparr>]\<rparr>]
     habitation_kw 40 = Some (1 / 4) \<and>
   number_after_keyword_with_ha
     [\<lparr>l_y = 110, y_vals = [110, 110, 110, 110],
       l_items = [\<lparr>t_text = ''Habitation'', t_bbox = quad_from_xywh 10 100 90 20\<rparr>,
                  \<lparr>t_text = ''1'', t_bbox = quad_from_xywh 110 100 10 20\<rparr>,
                  \<lparr>t_text = ''25'', t_bbox = quad_from_xywh 130 100 20 20\<rparr>,
                  \<lparr>t_text = ''ha'', t_bbox = quad_from_xywh 160 100 20 20\<rparr>]\<rparr>]
     habitation_kw 40 = Some (5 / 4)"
  using
    area_parsing [of "\<lparr>l_y = 110, y_vals = [110, 110, 110],
       l_items = [\<lparr>t_text = ''Habitation'', t_bbox = quad_from_xywh 10 100 90 20\<rparr>,
                  \<lparr>t_text = ''0.25'', t_bbox = quad_from_xywh 110 100 40 20\<rparr>,
                  \<lparr>t_text = ''Ha'', t_bbox = quad_from_xywh 160 100 20 20\<rparr>]\<rparr>"]
    area_parsing [of "\<lparr>l_y = 110, y_vals = [110, 110, 110, 110],
       l_items = [\<lparr>t_text = ''Habitation'', t_bbox = quad_from_xywh 10 100 90 20\<rparr>,
                  \<lparr>t_text = ''1'', t_bbox = quad_from_xywh 110 100 10 20\<rparr>,
                  \<lparr>t_text = ''25'', t_bbox = quad_from_xywh 130 100 20 20\<rparr>,
                  \<lparr>t_text = ''ha'', t_bbox = quad_from_xywh 160 100 20 20\<rparr>]\<rparr>"]
  by (simp add: area_lines_text)

text \<open>
  Normalization keeps every character that is not whitespace (in lower case), so a text
  whose normalized form is empty has no tokens.
\<close>

lemma split_ws_spaces: "list_all is_space cs \<Longrightarrow> split_ws [] cs = []"
  by (induction cs) auto

lemma lower_space: "is_space (lower x) \<Longrightarrow> is_space x"
  by (auto simp: lower_def is_space_def ws_chars_def upper_chars_def lower_chars_def
           split: if_splits)

lemma ws_match_end:
  assumes "re_match_at ws_plus s i = Some (e, g)" "i \<le> length s"
  shows "\<exists>m. drop i s = m @ drop e s \<and> list_all is_space m"
proof -
  let ?st = "(if i = 0 then None else Some (s ! (i - 1)), drop i s, [] :: caps)"
  from assms(1) obtain pv rest where
    hd: "(pv, rest, g) \<in> set (rx_match ws_plus ?st)" and e: "e = length s - length rest"
    by (auto simp: re_match_at_def split: list.splits)
  from rx_match_sound [OF hd] obtain m where
    m: "drop i s = m @ rest" "accepts ws_plus (if i = 0 then None else Some (s ! (i - 1))) m rest"
    by blast
  have "length (drop i s) = length m + length rest" using m(1) by simp
  then have len: "length s - i = length m + length rest" by simp
  have "drop (length m) (drop i s) = rest" using m(1) by simp
  then have "drop (i + length m) s = rest" by (simp add: add.commute)
  moreover have "e = i + length m" using e len assms(2) by arith
  ultimately have "drop e s = rest" by simp
  moreover have "list_all is_space m"
    using m(2) by (auto simp: ws_plus_def list_all_iff is_space_def)
  ultimately show ?thesis using m(1) by blast
qed

lemma re_sub_keeps:
  assumes "\<forall>i e g. re_match_at r s i = Some (e, g) \<and> i \<le> length s \<longrightarrow>
             (\<exists>m. drop i s = m @ drop e s \<and> list_all is_space m)"
  shows "x \<in> set (drop i s) \<Longrightarrow> \<not> is_space x \<Longrightarrow> x \<in> set (re_sub_from r repl s i)"
  using assms
proof (induction r repl s i rule: re_sub_from.induct)
  case (1 r repl s i)
  note ends = "1.prems"(3)
  from "1.prems"(1) have i: "i < length s" by (cases "i < length s") auto
  then have dr: "drop i s = s ! i # drop (Suc i) s" by (simp add: Cons_nth_drop_Suc)
  have nl: "\<not> length s < i" using i by simp
  show ?case
  proof (cases "re_match_at r s i")
    case None
    have "x = s ! i \<or> x \<in> set (drop (Suc i) s)" using "1.prems"(1) dr by auto
    then have "x = s ! i \<or> x \<in> set (re_sub_from r repl s (Suc i))"
      using "1.IH"(1) [OF nl None i _ "1.prems"(2) ends] by blast
    moreover have "re_sub_from r repl s i = s ! i # re_sub_from r repl s (Suc i)"
      using None i by (subst re_sub_from.simps) (simp del: re_sub_from.simps)
    ultimately show ?thesis by auto
  next
    case (Some a)
    obtain e g where a: "a = (e, g)" by (cases a)
    show ?thesis
    proof (cases "i < e")
      case True
      from ends Some [unfolded a] i obtain m where
        m: "drop i s = m @ drop e s" "list_all is_space m" by (meson less_imp_le_nat)
      with "1.prems" have "x \<in> set (drop e s)" by (auto simp: list_all_iff)
      then have "x \<in> set (re_sub_from r repl s e)"
        using "1.IH"(2) [OF nl Some a [symmetric] True _ "1.prems"(2) ends] by blast
      moreover have "re_sub_from r repl s i = repl g @ re_sub_from r repl s e"
        using Some a True i by (subst re_sub_from.simps) (simp del: re_sub_from.simps)
      ultimately show ?thesis by auto
    next
      case False
      have "x = s ! i \<or> x \<in> set (drop (Suc i) s)" using "1.prems"(1) dr by auto
      then have "x = s ! i \<or> x \<in> set (re_sub_from r repl s (Suc i))"
        using "1.IH"(3) [OF nl Some a [symmetric] False i _ "1.prems"(2) ends] by blast
      moreover have "re_sub_from r repl s i = repl g @ s ! i # re_sub_from r repl s (Suc i)"
        using Some a False i by (subst re_sub_from.simps) (simp del: re_sub_from.simps)
      ultimately show ?thesis by auto
    qed
  qed
qed

lemma re_sub_ws_keeps:
  "x \<in> set (drop i s) \<Longrightarrow> \<not> is_space x \<Longrightarrow> x \<in> set (re_sub_from ws_plus repl s i)"
  by (rule re_sub_keeps) (auto dest: ws_match_end)

lemma strip_Nil_spaces: "strip s = [] \<Longrightarrow> list_all is_space s"
  using strip_decomp [of s] by auto

lemma normalize_Nil_split:
  assumes "normalize_text c = []"
  shows "py_split c = []"
proof -
  let ?t = "re_sub ws_plus (\<lambda>g. '' '') (map lower c)"
  from assms have sp: "list_all is_space ?t"
    by (auto simp: normalize_text_def dest: strip_Nil_spaces)
  have "is_space x" if "x \<in> set c" for x
  proof (rule ccontr)
    assume "\<not> is_space x"
    then have "\<not> is_space (lower x)" by (auto dest: lower_space)
    moreover have "lower x \<in> set (drop 0 (map lower c))" using that by simp
    ultimately have "lower x \<in> set ?t"
      unfolding re_sub_def by (rule re_sub_ws_keeps [rotated])
    with sp \<open>\<not> is_space (lower x)\<close> show False by (auto simp: list_all_iff)
  qed
  then show ?thesis
    by (simp add: py_split_def split_ws_spaces list_all_iff)
qed

lemma normalize_Nil [simp]: "normalize_text [] = []"
  by code_simp

text \<open>
  Claim C10. Let the claimant and spouse names be strings that are equal after
  normalization. If the claimant name has exactly three tokens, the claimant becomes
  the first two and the spouse the third; if it has exactly four, the claimant becomes
  the first two and the spouse the last two; for any other number of tokens both names
  stay as they are.
\<close>

theorem claimant_spouse_postfix_cases:
  assumes "normalize_text c = normalize_text s"
  shows "(length (py_split c) = 3 \<longrightarrow>
            claimant_spouse_postfix (Some c) (Some s) =
              (Some (py_join '' '' (take 2 (py_split c))), Some (py_split c ! 2))) \<and>
         (length (py_split c) = 4 \<longrightarrow>
            claimant_spouse_postfix (Some c) (Some s) =
              (Some (py_join '' '' (take 2 (py_split c))),
               Some (py_join '' '' (drop 2 (py_split c))))) \<and>
         (length (py_split c) \<noteq> 3 \<and> length (py_split c) \<noteq> 4 \<longrightarrow>
            claimant_spouse_postfix (Some c) (Some s) = (Some c, Some s))"
proof -
  have "py_split [] = []"
    by (simp add: py_split_def)
  then have ne: "c \<noteq> []" if "length (py_split c) = 3 \<or> length (py_split c) = 4"
    using that by auto
  have "py_split c = []" if "s = []"
    using that assms by (intro normalize_Nil_split) simp
  then have ne': "s \<noteq> []" if "length (py_split c) = 3 \<or> length (py_split c) = 4"
    using that by auto
  show ?thesis
    using assms ne ne' by (auto simp: claimant_spouse_postfix_def Let_def)
qed

lemma postfix_inputs:
  "py_split ''ram kumar sita'' = [''ram'', ''kumar'', ''sita'']"
  "py_split ''ram kumar sita devi'' = [''ram'', ''kumar'', ''sita'', ''devi'']"
  "py_split ''ram kumar'' = [''ram'', ''kumar'']"
  by code_simp+

theorem claimant_spouse_postfix_witness:
  "claimant_spouse_postfix (Some ''ram kumar sita'') (Some ''ram kumar sita'')
     = (Some ''ram kumar'', Some ''sita'') \<and>
   claimant_spouse_postfix (Some ''ram kumar sita devi'') (Some ''ram kumar sita devi'')
     = (Some ''ram kumar'', Some ''sita devi'') \<and>
   claimant_spouse_postfix (Some ''ram kumar'') (Some ''ram kumar'')
     = (Some ''ram kumar'', Some ''ram kumar'')"
  using claimant_spouse_postfix_cases [of "''ram kumar sita''" "''ram kumar sita''"]
    claimant_spouse_postfix_cases [of "''ram kumar sita devi''" "''ram kumar sita devi''"]
    claimant_spouse_postfix_cases [of "''ram kumar''" "''ram kumar''"]
  by (simp add: postfix_inputs)

section \<open>Properties of the yes/no resolution\<close>

text \<open>The line that the search for the anchor's line returns is the first nearest one.\<close>

lemma nearest_from_cases:
  "(nearest_from am lns i idx best = idx \<and> (\<forall>li \<in> set lns. best \<le> \<bar>l_y li - am\<bar>)) \<or>
   (\<exists>k < length lns.
      nearest_from am lns i idx best = Some (i + k) \<and>
      \<bar>l_y (lns ! k) - am\<bar> < best \<and>
      (\<forall>j < length lns. \<bar>l_y (lns ! k) - am\<bar> \<le> \<bar>l_y (lns ! j) - am\<bar>) \<and>
      (\<forall>j < k. \<bar>l_y (lns ! k) - am\<bar> < \<bar>l_y (lns ! j) - am\<bar>))"
proof (induction lns arbitrary: i idx best)
  case Nil
  then show ?case by simp
next
  case (Cons li lns)
  let ?dy = "\<bar>l_y li - am\<bar>"
  show ?case
  proof (cases "?dy < best")
    case True
    from Cons.IH [of "Suc i" "Some i" ?dy]
    consider (keep) "nearest_from am lns (Suc i) (Some i) ?dy = Some i"
        "\<forall>l \<in> set lns. ?dy \<le> \<bar>l_y l - am\<bar>"
      | (later) k where "k < length lns"
        "nearest_from am lns (Suc i) (Some i) ?dy = Some (Suc i + k)"
        "\<bar>l_y (lns ! k) - am\<bar> < ?dy"
        "\<forall>j < length lns. \<bar>l_y (lns ! k) - am\<bar> \<le> \<bar>l_y (lns ! j) - am\<bar>"
        "\<forall>j < k. \<bar>l_y (lns ! k) - am\<bar> < \<bar>l_y (lns ! j) - am\<bar>"
      by blast
    then show ?thesis
    proof cases
      case keep
      have "\<forall>j < length (li # lns). ?dy \<le> \<bar>l_y ((li # lns) ! j) - am\<bar>"
        using keep(2) by (auto simp: nth_Cons split: nat.splits)
      with keep(1) True show ?thesis
        by (intro disjI2 exI [of _ 0]) simp
    next
      case later
      have a: "\<forall>j < length (li # lns).
                 \<bar>l_y (lns ! k) - am\<bar> \<le> \<bar>l_y ((li # lns) ! j) - am\<bar>"
        using later(3,4) by (auto simp: nth_Cons split: nat.splits)
      have b: "\<forall>j < Suc k. \<bar>l_y (lns ! k) - am\<bar> < \<bar>l_y ((li # lns) ! j) - am\<bar>"
        using later(3,5) by (auto simp: nth_Cons split: nat.splits)
      from later(1,2,3) True a b show ?thesis
        by (intro disjI2 exI [of _ "Suc k"]) simp
    qed
  next
    case False
    from Cons.IH [of "Suc i" idx best]
    consider (keep) "nearest_from am lns (Suc i) idx best = idx"
        "\<forall>l \<in> set lns. best \<le> \<bar>l_y l - am\<bar>"
      | (later) k where "k < length lns"
        "nearest_from am lns (Suc i) idx best = Some (Suc i + k)"
        "\<bar>l_y (lns ! k) - am\<bar> < best"
        "\<forall>j < length lns. \<bar>l_y (lns ! k) - am\<bar> \<le> \<bar>l_y (lns ! j) - am\<bar>"
        "\<forall>j < k. \<bar>l_y (lns ! k) - am\<bar> < \<bar>l_y (lns ! j) - am\<bar>"
      by blast
    then show ?thesis
    proof cases
      case keep
      with False show ?thesis by (intro disjI1) simp
    next
      case later
      have a: "\<forall>j < length (li # lns).
                 \<bar>l_y (lns ! k) - am\<bar> \<le> \<bar>l_y ((li # lns) ! j) - am\<bar>"
        using later(3,4) False by (auto simp: nth_Cons split: nat.splits)
      have b: "\<forall>j < Suc k. \<bar>l_y (lns ! k) - am\<bar> < \<bar>l_y ((li # lns) ! j) - am\<bar>"
        using later(3,5) False by (auto simp: nth_Cons split: nat.splits)
      from later(1,2,3) False a b show ?thesis
        by (intro disjI2 exI [of _ "Suc k"]) simp
    qed
  qed
qed

lemma nearest_line_Some:
  assumes "nearest_line am lines = Some k"
  shows "k < length lines \<and> \<bar>l_y (lines ! k) - am\<bar> < 1000000000 \<and>
         (\<forall>j < length lines. \<bar>l_y (lines ! k) - am\<bar> \<le> \<bar>l_y (lines ! j) - am\<bar>) \<and>
         (\<forall>j < k. \<bar>l_y (lines ! k) - am\<bar> < \<bar>l_y (lines ! j) - am\<bar>)"
  using nearest_from_cases [of am lines 0 None 1000000000] assms
  by (auto simp: nearest_line_def)

lemma nearest_line_None:
  "nearest_line am lines = None \<longleftrightarrow> (\<forall>li \<in> set lines. 1000000000 \<le> \<bar>l_y li - am\<bar>)"
proof
  assume "nearest_line am lines = None"
  with nearest_from_cases [of am lines 0 None 1000000000]
  show "\<forall>li \<in> set lines. 1000000000 \<le> \<bar>l_y li - am\<bar>"
    by (auto simp: nearest_line_def)
next
  assume h: "\<forall>li \<in> set lines. 1000000000 \<le> \<bar>l_y li - am\<bar>"
  from nearest_from_cases [of am lines 0 None 1000000000]
  show "nearest_line am lines = None"
  proof
    assume "nearest_from am lines 0 None 1000000000 = None \<and>
            (\<forall>li \<in> set lines. 1000000000 \<le> \<bar>l_y li - am\<bar>)"
    then show ?thesis by (simp add: nearest_line_def)
  next
    assume "\<exists>k < length lines.
      nearest_from am lines 0 None 1000000000 = Some (0 + k) \<and>
      \<bar>l_y (lines ! k) - am\<bar> < 1000000000 \<and>
      (\<forall>j < length lines. \<bar>l_y (lines ! k) - am\<bar> \<le> \<bar>l_y (lines ! j) - am\<bar>) \<and>
      (\<forall>j < k. \<bar>l_y (lines ! k) - am\<bar> < \<bar>l_y (lines ! j) - am\<bar>)"
    then obtain k where "k < length lines" "\<bar>l_y (lines ! k) - am\<bar> < 1000000000" by blast
    with h have False by (metis not_le nth_mem)
    then show ?thesis ..
  qed
qed

lemma mentions_search:
  "mentions ''yes'' it \<longleftrightarrow> re_search yes_pat (normalize_text (t_text it)) \<noteq> None"
  "mentions ''no'' it \<longleftrightarrow> re_search no_pat (normalize_text (t_text it)) \<noteq> None"
proof -
  show "mentions ''yes'' it \<longleftrightarrow> re_search yes_pat (normalize_text (t_text it)) \<noteq> None"
    unfolding mentions_def yes_no_framed
    using search_word_isolated [OF wordy_yes_no(1), of "normalize_text (t_text it)"] by blast
  show "mentions ''no'' it \<longleftrightarrow> re_search no_pat (normalize_text (t_text it)) \<noteq> None"
    unfolding mentions_def yes_no_framed
    using search_word_isolated [OF wordy_yes_no(2), of "normalize_text (t_text it)"] by blast
qed

lemma harvest_yes: "''yes'' \<in> set (harvest li) \<longleftrightarrow> (\<exists>it \<in> set (l_items li). mentions ''yes'' it)"
  by (auto simp: harvest_def mentions_search Let_def)

lemma harvest_no: "''no'' \<in> set (harvest li) \<longleftrightarrow> (\<exists>it \<in> set (l_items li). mentions ''no'' it)"
  by (auto simp: harvest_def mentions_search Let_def)

lemma harvest_only: "set (harvest li) \<subseteq> {''yes'', ''no''}"
  by (auto simp: harvest_def Let_def split: if_splits)

lemma decide_candidates:
  assumes "set cands \<subseteq> {''yes'', ''no''}"
  shows "(if cands = [] then None
          else if ''yes'' \<in> set cands \<and> ''no'' \<notin> set cands then Some True
          else if ''no'' \<in> set cands \<and> ''yes'' \<notin> set cands then Some False
          else None) =
         (if ''yes'' \<in> set cands \<and> ''no'' \<notin> set cands then Some True
          else if ''no'' \<in> set cands \<and> ''yes'' \<notin> set cands then Some False
          else None)"
  by auto

lemma nearest_line_index:
  assumes "nearest_line am lines = Some k"
  shows "nearest_index am lines k"
  using nearest_line_Some [OF assms] by (simp add: nearest_index_def)

lemma nearest_index_unique:
  assumes "nearest_index am lines k" and "nearest_index am lines k'"
  shows "k = k'"
proof (rule ccontr)
  assume "k \<noteq> k'"
  then consider "k < k'" | "k' < k" by linarith
  then show False
  proof cases
    case 1
    with assms have "\<bar>l_y (lines ! k') - am\<bar> < \<bar>l_y (lines ! k) - am\<bar>"
      "\<bar>l_y (lines ! k) - am\<bar> \<le> \<bar>l_y (lines ! k') - am\<bar>"
      by (simp_all add: nearest_index_def)
    then show False by simp
  next
    case 2
    with assms have "\<bar>l_y (lines ! k) - am\<bar> < \<bar>l_y (lines ! k') - am\<bar>"
      "\<bar>l_y (lines ! k') - am\<bar> \<le> \<bar>l_y (lines ! k) - am\<bar>"
      by (simp_all add: nearest_index_def)
    then show False by simp
  qed
qed

lemma nearest_line_iff: "nearest_line am lines = Some k \<longleftrightarrow> nearest_index am lines k"
proof
  assume "nearest_line am lines = Some k"
  then show "nearest_index am lines k" by (rule nearest_line_index)
next
  assume k: "nearest_index am lines k"
  show "nearest_line am lines = Some k"
  proof (cases "nearest_line am lines")
    case None
    then have "\<forall>li \<in> set lines. 1000000000 \<le> \<bar>l_y li - am\<bar>"
      by (simp add: nearest_line_None)
    moreover from k have "k < length lines" "\<bar>l_y (lines ! k) - am\<bar> < 1000000000"
      by (simp_all add: nearest_index_def)
    ultimately have False by (metis not_le nth_mem)
    then show ?thesis ..
  next
    case (Some k')
    then have "nearest_index am lines k'" by (rule nearest_line_index)
    with k have "k = k'" by (rule nearest_index_unique)
    with Some show ?thesis by simp
  qed
qed

lemma yes_no_by_line:
  "yes_no_from_near_text items (ax1, ay1, ax2, ay2) page_w page_h =
     (case nearest_line (tdiv (ay1 + ay2) 2) (group_by_lines items page_h) of
        None \<Rightarrow> None
      | Some idx \<Rightarrow> verdict (line_and_next (group_by_lines items page_h) idx))"
proof -
  let ?lines = "group_by_lines items page_h"
  show ?thesis
  proof (cases "nearest_line (tdiv (ay1 + ay2) 2) ?lines")
    case None
    then show ?thesis
      by (simp add: yes_no_from_near_text_def Let_def)
  next
    case (Some idx)
    let ?cands = "harvest (?lines ! idx) @
                  (if idx + 1 < length ?lines then harvest (?lines ! (idx + 1)) else [])"
    have sub: "set ?cands \<subseteq> {''yes'', ''no''}"
      using harvest_only [of "?lines ! idx"] harvest_only [of "?lines ! (idx + 1)"]
      by auto
    have y: "''yes'' \<in> set ?cands \<longleftrightarrow>
             (\<exists>it \<in> set (line_and_next ?lines idx). mentions ''yes'' it)"
      by (auto simp: line_and_next_def harvest_yes)
    have n: "''no'' \<in> set ?cands \<longleftrightarrow>
             (\<exists>it \<in> set (line_and_next ?lines idx). mentions ''no'' it)"
      by (auto simp: line_and_next_def harvest_no)
    have "yes_no_from_near_text items (ax1, ay1, ax2, ay2) page_w page_h =
          (if ?cands = [] then None
           else if ''yes'' \<in> set ?cands \<and> ''no'' \<notin> set ?cands then Some True
           else if ''no'' \<in> set ?cands \<and> ''yes'' \<notin> set ?cands then Some False
           else None)"
      by (simp add: yes_no_from_near_text_def Some Let_def)
    also have "\<dots> = (if ''yes'' \<in> set ?cands \<and> ''no'' \<notin> set ?cands then Some True
          else if ''no'' \<in> set ?cands \<and> ''yes'' \<notin> set ?cands then Some False
          else None)"
      by (rule decide_candidates [OF sub])
    finally show ?thesis
      unfolding y n by (simp add: Some verdict_def Let_def)
  qed
qed

text \<open>
  Claim C8, as amended. \<^verbatim>\<open>yes_no_from_near_text\<close> groups the tokens into lines and looks at two
  of them only: the line whose centre is nearest to the vertical centre of the anchor
  rectangle (the first such line, and only if it is nearer than \<^verbatim>\<open>1e9\<close>), and the line after
  it. The result is the verdict of their tokens: true when one mentions \<^verbatim>\<open>yes\<close> as an
  isolated word and none \<^verbatim>\<open>no\<close>, false when one mentions \<^verbatim>\<open>no\<close> and none \<^verbatim>\<open>yes\<close>, and null
  in every other case. When no line is nearest the result is null, and that is so exactly
  when there is no line nearer than \<^verbatim>\<open>1e9\<close>. The nearest line is fixed by the centres of
  the lines, whichever line the anchor token itself was grouped into.
\<close>

theorem yes_no_resolution:
  "let lines = group_by_lines items page_h;
       am = tdiv (ay1 + ay2) 2;
       res = yes_no_from_near_text items (ax1, ay1, ax2, ay2) page_w page_h
   in (\<forall>k. nearest_index am lines k \<longrightarrow> res = verdict (line_and_next lines k)) \<and>
      ((\<forall>k. \<not> nearest_index am lines k) \<longrightarrow> res = None) \<and>
      ((\<exists>k. nearest_index am lines k) \<longleftrightarrow> (\<exists>li \<in> set lines. \<bar>l_y li - am\<bar> < 1000000000))"
proof -
  let ?lines = "group_by_lines items page_h"
  let ?am = "tdiv (ay1 + ay2) 2"
  let ?res = "yes_no_from_near_text items (ax1, ay1, ax2, ay2) page_w page_h"
  have a: "?res = verdict (line_and_next ?lines k)" if "nearest_index ?am ?lines k" for k
  proof -
    from that have "nearest_line ?am ?lines = Some k" by (simp add: nearest_line_iff)
    then show ?thesis by (simp add: yes_no_by_line)
  qed
  have b: "?res = None" if "\<forall>k. \<not> nearest_index ?am ?lines k"
  proof (cases "nearest_line ?am ?lines")
    case None
    then show ?thesis by (simp add: yes_no_by_line)
  next
    case (Some k)
    then have "nearest_index ?am ?lines k" by (rule nearest_line_index)
    with that show ?thesis by blast
  qed
  have c: "(\<exists>k. nearest_index ?am ?lines k) \<longleftrightarrow>
           (\<exists>li \<in> set ?lines. \<bar>l_y li - ?am\<bar> < 1000000000)"
  proof
    assume "\<exists>k. nearest_index ?am ?lines k"
    then obtain k where "k < length ?lines" "\<bar>l_y (?lines ! k) - ?am\<bar> < 1000000000"
      by (auto simp: nearest_index_def)
    then show "\<exists>li \<in> set ?lines. \<bar>l_y li - ?am\<bar> < 1000000000"
      using nth_mem by blast
  next
    assume "\<exists>li \<in> set ?lines. \<bar>l_y li - ?am\<bar> < 1000000000"
    then have "nearest_line ?am ?lines \<noteq> None"
      by (simp add: nearest_line_None not_le)
    then obtain k where "nearest_line ?am ?lines = Some k" by blast
    then show "\<exists>k. nearest_index ?am ?lines k"
      using nearest_line_index by blast
  qed
  from a b c show ?thesis unfolding Let_def by blast
qed

text \<open>
  A page of three lines: \<^verbatim>\<open>No\<close> on the first, the anchor and \<^verbatim>\<open>Yes\<close> on the second, a label
  on the third. The second line is the nearest one, the first line is not looked at, and the
  result is true.
\<close>

lemma yes_no_example_lines:
  "group_by_lines
     [\<lparr>t_text = ''No'', t_bbox = quad_from_xywh 400 100 40 20\<rparr>,
      \<lparr>t_text = ''ScheduledTribe'', t_bbox = quad_from_xywh 100 200 200 20\<rparr>,
      \<lparr>t_text = ''Yes'', t_bbox = quad_from_xywh 400 200 40 20\<rparr>,
      \<lparr>t_text = ''Name'', t_bbox = quad_from_xywh 100 300 60 20\<rparr>] 1400
   = [\<lparr>l_y = 110, y_vals = [110],
        l_items = [\<lparr>t_text = ''No'', t_bbox = quad_from_xywh 400 100 40 20\<rparr>]\<rparr>,
      \<lparr>l_y = 210, y_vals = [210, 210],
        l_items = [\<lparr>t_text = ''ScheduledTribe'', t_bbox = quad_from_xywh 100 200 200 20\<rparr>,
                   \<lparr>t_text = ''Yes'', t_bbox = quad_from_xywh 400 200 40 20\<rparr>]\<rparr>,
      \<lparr>l_y = 310, y_vals = [310],
        l_items = [\<lparr>t_text = ''Name'', t_bbox = quad_from_xywh 100 300 60 20\<rparr>]\<rparr>]"
  by code_simp

lemma yes_no_example_nearest:
  "nearest_index 210
     [\<lparr>l_y = 110, y_vals = [110],
        l_items = [\<lparr>t_text = ''No'', t_bbox = quad_from_xywh 400 100 40 20\<rparr>]\<rparr>,
      \<lparr>l_y = 210, y_vals = [210, 210],
        l_items = [\<lparr>t_text = ''ScheduledTribe'', t_bbox = quad_from_xywh 100 200 200 20\<rparr>,
                   \<lparr>t_text = ''Yes'', t_bbox = quad_from_xywh 400 200 40 20\<rparr>]\<rparr>,
      \<lparr>l_y = 310, y_vals = [310],
        l_items = [\<lparr>t_text = ''Name'', t_bbox = quad_from_xywh 100 300 60 20\<rparr>]\<rparr>] 1"
  by code_simp

lemma yes_no_example_mentions:
  "\<not> mentions ''yes'' \<lparr>t_text = ''ScheduledTribe'', t_bbox = b1\<rparr>"
  "\<not> mentions ''no'' \<lparr>t_text = ''ScheduledTribe'', t_bbox = b1\<rparr>"
  "mentions ''yes'' \<lparr>t_text = ''Yes'', t_bbox = b2\<rparr>"
  "\<not> mentions ''no'' \<lparr>t_text = ''Yes'', t_bbox = b2\<rparr>"
  "\<not> mentions ''yes'' \<lparr>t_text = ''Name'', t_bbox = b3\<rparr>"
  "\<not> mentions ''no'' \<lparr>t_text = ''Name'', t_bbox = b3\<rparr>"
  "\<not> mentions ''yes'' \<lparr>t_text = ''No'', t_bbox = b4\<rparr>"
  "mentions ''no'' \<lparr>t_text = ''No'', t_bbox = b4\<rparr>"
  unfolding mentions_search token.simps by code_simp+

theorem yes_no_resolution_witness:
  "nearest_index (tdiv (200 + 220) 2)
     (group_by_lines
        [\<lparr>t_text = ''No'', t_bbox = quad_from_xywh 400 100 40 20\<rparr>,
         \<lparr>t_text = ''ScheduledTribe'', t_bbox = quad_from_xywh 100 200 200 20\<rparr>,
         \<lparr>t_text = ''Yes'', t_bbox = quad_from_xywh 400 200 40 20\<rparr>,
         \<lparr>t_text = ''Name'', t_bbox = quad_from_xywh 100 300 60 20\<rparr>] 1400) 1 \<and>
   yes_no_from_near_text
     [\<lparr>t_text = ''No'', t_bbox = quad_from_xywh 400 100 40 20\<rparr>,
      \<lparr>t_text = ''ScheduledTribe'', t_bbox = quad_from_xywh 100 200 200 20\<rparr>,
      \<lparr>t_text = ''Yes'', t_bbox = quad_from_xywh 400 200 40 20\<rparr>,
      \<lparr>t_text = ''Name'', t_bbox = quad_from_xywh 100 300 60 20\<rparr>]
     (100, 200, 300, 220) 1000 1400 = Some True"
proof -
  have am: "tdiv (200 + 220) 2 = 210" by (simp add: tdiv_def)
  have v: "verdict (line_and_next
     [\<lparr>l_y = 110, y_vals = [110],
        l_items = [\<lparr>t_text = ''No'', t_bbox = quad_from_xywh 400 100 40 20\<rparr>]\<rparr>,
      \<lparr>l_y = 210, y_vals = [210, 210],
        l_items = [\<lparr>t_text = ''ScheduledTribe'', t_bbox = quad_from_xywh 100 200 200 20\<rparr>,
                   \<lparr>t_text = ''Yes'', t_bbox = quad_from_xywh 400 200 40 20\<rparr>]\<rparr>,
      \<lparr>l_y = 310, y_vals = [310],
        l_items = [\<lparr>t_text = ''Name'', t_bbox = quad_from_xywh 100 300 60 20\<rparr>]\<rparr>] 1) = Some True"
    by (simp add: verdict_def line_and_next_def yes_no_example_mentions)
  from yes_no_resolution
    [of "[\<lparr>t_text = ''No'', t_bbox = quad_from_xywh 400 100 40 20\<rparr>,
          \<lparr>t_text = ''ScheduledTribe'', t_bbox = quad_from_xywh 100 200 200 20\<rparr>,
          \<lparr>t_text = ''Yes'', t_bbox = quad_from_xywh 400 200 40 20\<rparr>,
          \<lparr>t_text = ''Name'', t_bbox = quad_from_xywh 100 300 60 20\<rparr>]"
        1400 200 220 100 300 1000]
  show ?thesis
    unfolding Let_def yes_no_example_lines am
    using yes_no_example_nearest v by simp
qed

text \<open>
  The claim as stated, that the anchor's line and the next line are scanned, fails on the
  page below, of height 3500 (a line takes tokens up to 70 away from its centre):
  \<^verbatim>\<open>Name\<close> and \<^verbatim>\<open>Yes\<close> have their centres at 1000, the anchor \<^verbatim>\<open>ScheduledTribe\<close> at
  1069 and \<^verbatim>\<open>No\<close> at 1075. The anchor is grouped with \<^verbatim>\<open>Name\<close> and \<^verbatim>\<open>Yes\<close> into a line
  whose centre stays at 1000, and \<^verbatim>\<open>No\<close> forms the next line, at 1075. The anchor's line
  and the next line hold both words, so their verdict is null; but the line nearest to the
  centre of the anchor rectangle, 1069, is the second one, the anchor's own line is not
  looked at, and the result is false.
\<close>

lemma yes_no_drift_lines:
  "group_by_lines
     [\<lparr>t_text = ''Name'', t_bbox = quad_from_xywh 120 980 80 40\<rparr>,
      \<lparr>t_text = ''Yes'', t_bbox = quad_from_xywh 400 980 40 40\<rparr>,
      \<lparr>t_text = ''ScheduledTribe'', t_bbox = quad_from_xywh 100 1049 200 40\<rparr>,
      \<lparr>t_text = ''No'', t_bbox = quad_from_xywh 400 1055 40 40\<rparr>] 3500
   = [\<lparr>l_y = 1000, y_vals = [1000, 1000, 1069],
        l_items = [\<lparr>t_text = ''ScheduledTribe'', t_bbox = quad_from_xywh 100 1049 200 40\<rparr>,
                   \<lparr>t_text = ''Name'', t_bbox = quad_from_xywh 120 980 80 40\<rparr>,
                   \<lparr>t_text = ''Yes'', t_bbox = quad_from_xywh 400 980 40 40\<rparr>]\<rparr>,
      \<lparr>l_y = 1075, y_vals = [1075],
        l_items = [\<lparr>t_text = ''No'', t_bbox = quad_from_xywh 400 1055 40 40\<rparr>]\<rparr>]"
  by code_simp

lemma yes_no_drift_result:
  "yes_no_from_near_text
     [\<lparr>t_text = ''Name'', t_bbox = quad_from_xywh 120 980 80 40\<rparr>,
      \<lparr>t_text = ''Yes'', t_bbox = quad_from_xywh 400 980 40 40\<rparr>,
      \<lparr>t_text = ''ScheduledTribe'', t_bbox = quad_from_xywh 100 1049 200 40\<rparr>,
      \<lparr>t_text = ''No'', t_bbox = quad_from_xywh 400 1055 40 40\<rparr>]
     (100, 1049, 300, 1089) 2500 3500 = Some False"
  by code_simp

theorem yes_no_resolution_counterexample:
  "group_by_lines
     [\<lparr>t_text = ''Name'', t_bbox = quad_from_xywh 120 980 80 40\<rparr>,
      \<lparr>t_text = ''Yes'', t_bbox = quad_from_xywh 400 980 40 40\<rparr>,
      \<lparr>t_text = ''ScheduledTribe'', t_bbox = quad_from_xywh 100 1049 200 40\<rparr>,
      \<lparr>t_text = ''No'', t_bbox = quad_from_xywh 400 1055 40 40\<rparr>] 3500
   = [\<lparr>l_y = 1000, y_vals = [1000, 1000, 1069],
        l_items = [\<lparr>t_text = ''ScheduledTribe'', t_bbox = quad_from_xywh 100 1049 200 40\<rparr>,
                   \<lparr>t_text = ''Name'', t_bbox = quad_from_xywh 120 980 80 40\<rparr>,
                   \<lparr>t_text = ''Yes'', t_bbox = quad_from_xywh 400 980 40 40\<rparr>]\<rparr>,
      \<lparr>l_y = 1075, y_vals = [1075],
        l_items = [\<lparr>t_text = ''No'', t_bbox = quad_from_xywh 400 1055 40 40\<rparr>]\<rparr>] \<and>
   rect_from_bbox (quad_from_xywh 100 1049 200 40) = (100, 1049, 300, 1089) \<and>
   verdict (line_and_next
     [\<lparr>l_y = 1000, y_vals = [1000, 1000, 1069],
        l_items = [\<lparr>t_text = ''ScheduledTribe'', t_bbox = quad_from_xywh 100 1049 200 40\<rparr>,
                   \<lparr>t_text = ''Name'', t_bbox = quad_from_xywh 120 980 80 40\<rparr>,
                   \<lparr>t_text = ''Yes'', t_bbox = quad_from_xywh 400 980 40 40\<rparr>]\<rparr>,
      \<lparr>l_y = 1075, y_vals = [1075],
        l_items = [\<lparr>t_text = ''No'', t_bbox = quad_from_xywh 400 1055 40 40\<rparr>]\<rparr>] 0) = None \<and>
   yes_no_from_near_text
     [\<lparr>t_text = ''Name'', t_bbox = quad_from_xywh 120 980 80 40\<rparr>,
      \<lparr>t_text = ''Yes'', t_bbox = quad_from_xywh 400 980 40 40\<rparr>,
      \<lparr>t_text = ''ScheduledTribe'', t_bbox = quad_from_xywh 100 1049 200 40\<rparr>,
      \<lparr>t_text = ''No'', t_bbox = quad_from_xywh 400 1055 40 40\<rparr>]
     (100, 1049, 300, 1089) 2500 3500 = Some False"
proof -
  have r: "rect_from_bbox (quad_from_xywh 100 1049 200 40) = (100, 1049, 300, 1089)"
    by code_simp
  have v: "verdict (line_and_next
     [\<lparr>l_y = 1000, y_vals = [1000, 1000, 1069],
        l_items = [\<lparr>t_text = ''ScheduledTribe'', t_bbox = quad_from_xywh 100 1049 200 40\<rparr>,
                   \<lparr>t_text = ''Name'', t_bbox = quad_from_xywh 120 980 80 40\<rparr>,
                   \<lparr>t_text = ''Yes'', t_bbox = quad_from_xywh 400 980 40 40\<rparr>]\<rparr>,
      \<lparr>l_y = 1075, y_vals = [1075],
        l_items = [\<lparr>t_text = ''No'', t_bbox = quad_from_xywh 400 1055 40 40\<rparr>]\<rparr>] 0) = None"
    by (simp add: verdict_def line_and_next_def yes_no_example_mentions)
  from yes_no_drift_lines r v yes_no_drift_result show ?thesis by (intro conjI)
qed

section \<open>Properties of the checkbox and exclusivity rules\<close>

lemma label_vote_pair:
  "filled a \<Longrightarrow> filled b \<Longrightarrow>
   label_vote [a, b] =
     (if contains ''yes'' (label_of a) then Some True
      else if contains ''no'' (label_of a) then Some False
      else if contains ''yes'' (label_of b) then Some True
      else if contains ''no'' (label_of b) then Some False
      else None)"
  "\<not> filled a \<Longrightarrow> \<not> filled b \<Longrightarrow> label_vote [a, b] = None"
  by (simp_all add: label_of_def Let_def)

text \<open>
  Claim C2, as amended. Let exactly two checkboxes lie in the vertical band of the
  anchor, and let \<^verbatim>\<open>left\<close> and \<^verbatim>\<open>right\<close> be the two in the order of their left edges (the
  first in page order on a tie). If exactly one of them is filled the result is true
  when it is the left one and false when it is the right one; if both are empty the
  result is null; if both are filled the label text decides: the first label, left
  box first, that contains \<^verbatim>\<open>yes\<close> or \<^verbatim>\<open>no\<close> gives true or false, and the result is null
  only when neither label contains either word.
\<close>

theorem checkbox_pair_resolution:
  assumes "length (close_boxes r m2) = 2"
  shows "(let sc = sort_key cb_left_x (close_boxes r m2);
              left = sc ! 0; right = sc ! 1;
              res = bool_from_checkboxes_near (Some r) m2
          in cb_left_x left \<le> cb_left_x right \<and>
             mset [left, right] = mset (close_boxes r m2) \<and>
             (filled left \<and> \<not> filled right \<longrightarrow> res = Some True) \<and>
             (\<not> filled left \<and> filled right \<longrightarrow> res = Some False) \<and>
             (\<not> filled left \<and> \<not> filled right \<longrightarrow> res = None) \<and>
             (filled left \<and> filled right \<longrightarrow>
                res = (if contains ''yes'' (label_of left) then Some True
                       else if contains ''no'' (label_of left) then Some False
                       else if contains ''yes'' (label_of right) then Some True
                       else if contains ''no'' (label_of right) then Some False
                       else None)))"
proof -
  from assms obtain a b where ab: "close_boxes r m2 = [a, b]"
    by (cases "close_boxes r m2" rule: list.exhaust)
       (auto simp: length_Suc_conv)
  show ?thesis
  proof (cases "cb_left_x a \<le> cb_left_x b")
    case True
    then have sc: "sort_key cb_left_x [a, b] = [a, b]" by simp
    show ?thesis
      using True label_vote_pair [of a b]
      by (auto simp: ab sc bool_from_checkboxes_near_def Let_def)
  next
    case False
    then have sc: "sort_key cb_left_x [a, b] = [b, a]" by simp
    show ?thesis
      using False label_vote_pair [of b a]
      by (auto simp: ab sc bool_from_checkboxes_near_def Let_def)
  qed
qed

lemma pair_example_close:
  "close_boxes (100, 100, 300, 120)
     \<lparr>checkboxes = [\<lparr>cb_bbox = quad_from_xywh 400 100 20 20, filled = True, near_label = None\<rparr>,
                    \<lparr>cb_bbox = quad_from_xywh 500 100 20 20, filled = False, near_label = None\<rparr>],
      signatures = []\<rparr>
   = [\<lparr>cb_bbox = quad_from_xywh 400 100 20 20, filled = True, near_label = None\<rparr>,
      \<lparr>cb_bbox = quad_from_xywh 500 100 20 20, filled = False, near_label = None\<rparr>]"
  by code_simp

lemma pair_example_sorted:
  "sort_key cb_left_x
     [\<lparr>cb_bbox = quad_from_xywh 400 100 20 20, filled = True, near_label = None\<rparr>,
      \<lparr>cb_bbox = quad_from_xywh 500 100 20 20, filled = False, near_label = None\<rparr>]
   = [\<lparr>cb_bbox = quad_from_xywh 400 100 20 20, filled = True, near_label = None\<rparr>,
      \<lparr>cb_bbox = quad_from_xywh 500 100 20 20, filled = False, near_label = None\<rparr>]"
  by code_simp

theorem checkbox_pair_resolution_witness:
  "bool_from_checkboxes_near (Some (100, 100, 300, 120))
     \<lparr>checkboxes = [\<lparr>cb_bbox = quad_from_xywh 400 100 20 20, filled = True, near_label = None\<rparr>,
                    \<lparr>cb_bbox = quad_from_xywh 500 100 20 20, filled = False, near_label = None\<rparr>],
      signatures = []\<rparr> = Some True"
proof -
  let ?m2 = "\<lparr>checkboxes = [\<lparr>cb_bbox = quad_from_xywh 400 100 20 20, filled = True, near_label = None\<rparr>,
                    \<lparr>cb_bbox = quad_from_xywh 500 100 20 20, filled = False, near_label = None\<rparr>],
      signatures = []\<rparr>"
  have two: "length (close_boxes (100, 100, 300, 120) ?m2) = 2"
    by (simp only: pair_example_close) simp
  from checkbox_pair_resolution [OF two] show ?thesis
    unfolding Let_def pair_example_close pair_example_sorted by simp
qed

text \<open>
  The claim as stated fails when both boxes are filled: with the labels \<^verbatim>\<open>yes\<close> and
  \<^verbatim>\<open>no\<close> of the specification's own example, both boxes are in the band and the result
  is true, not null.
\<close>

theorem checkbox_pair_resolution_counterexample:
  "close_boxes (100, 100, 300, 120)
     \<lparr>checkboxes = [\<lparr>cb_bbox = quad_from_xywh 400 100 20 20, filled = True, near_label = Some ''yes''\<rparr>,
                    \<lparr>cb_bbox = quad_from_xywh 500 100 20 20, filled = True, near_label = Some ''no''\<rparr>],
      signatures = []\<rparr>
   = [\<lparr>cb_bbox = quad_from_xywh 400 100 20 20, filled = True, near_label = Some ''yes''\<rparr>,
      \<lparr>cb_bbox = quad_from_xywh 500 100 20 20, filled = True, near_label = Some ''no''\<rparr>] \<and>
   bool_from_checkboxes_near (Some (100, 100, 300, 120))
     \<lparr>checkboxes = [\<lparr>cb_bbox = quad_from_xywh 400 100 20 20, filled = True, near_label = Some ''yes''\<rparr>,
                    \<lparr>cb_bbox = quad_from_xywh 500 100 20 20, filled = True, near_label = Some ''no''\<rparr>],
      signatures = []\<rparr> = Some True"
  by code_simp

text \<open>
  Claim C1, as amended. In the fields resolved for a page and in the merged record,
  \<^verbatim>\<open>scheduled_tribe\<close> and \<^verbatim>\<open>otfd\<close> are never both true.
\<close>

theorem exclusivity_invariant:
  "\<not> (fst (extract_st_otfd pm items m2) = Some True \<and>
      snd (extract_st_otfd pm items m2) = Some True) \<and>
   (\<forall>merged. merge_document pages = Inr merged \<longrightarrow>
      \<not> (merged Scheduled_tribe = PBool True \<and> merged Otfd = PBool True))"
proof
  show "\<not> (fst (extract_st_otfd pm items m2) = Some True \<and>
      snd (extract_st_otfd pm items m2) = Some True)"
    by (simp add: extract_st_otfd_def Let_def)
next
  have "\<not> (exclusivity m Scheduled_tribe = PBool True \<and> exclusivity m Otfd = PBool True)" for m
    by (simp add: exclusivity_def)
  then show "\<forall>merged. merge_document pages = Inr merged \<longrightarrow>
      \<not> (merged Scheduled_tribe = PBool True \<and> merged Otfd = PBool True)"
    by (auto simp: merge_document_def split: sum.splits)
qed

lemma page_example:
  "extract_st_otfd \<lparr>pm_width = 1000, pm_height = 1400\<rparr>
     [\<lparr>t_text = ''ScheduledTribe'', t_bbox = quad_from_xywh 100 100 200 20\<rparr>,
      \<lparr>t_text = ''OtherTraditionalForestDweller'', t_bbox = quad_from_xywh 100 300 300 20\<rparr>]
     \<lparr>checkboxes = [\<lparr>cb_bbox = quad_from_xywh 500 100 20 20, filled = True, near_label = None\<rparr>,
                    \<lparr>cb_bbox = quad_from_xywh 600 100 20 20, filled = False, near_label = None\<rparr>,
                    \<lparr>cb_bbox = quad_from_xywh 500 300 20 20, filled = True, near_label = None\<rparr>,
                    \<lparr>cb_bbox = quad_from_xywh 600 300 20 20, filled = False, near_label = None\<rparr>],
      signatures = []\<rparr>
   = (Some True, Some False)"
  by code_simp

lemma page_example_unfixed:
  "resolve_bool \<lparr>pm_width = 1000, pm_height = 1400\<rparr>
     [\<lparr>t_text = ''ScheduledTribe'', t_bbox = quad_from_xywh 100 100 200 20\<rparr>,
      \<lparr>t_text = ''OtherTraditionalForestDweller'', t_bbox = quad_from_xywh 100 300 300 20\<rparr>]
     \<lparr>checkboxes = [\<lparr>cb_bbox = quad_from_xywh 500 100 20 20, filled = True, near_label = None\<rparr>,
                    \<lparr>cb_bbox = quad_from_xywh 600 100 20 20, filled = False, near_label = None\<rparr>,
                    \<lparr>cb_bbox = quad_from_xywh 500 300 20 20, filled = True, near_label = None\<rparr>,
                    \<lparr>cb_bbox = quad_from_xywh 600 300 20 20, filled = False, near_label = None\<rparr>],
      signatures = []\<rparr> otfd_labels
   = Some True"
  by code_simp

theorem exclusivity_invariant_witness:
  "extract_st_otfd \<lparr>pm_width = 1000, pm_height = 1400\<rparr>
     [\<lparr>t_text = ''ScheduledTribe'', t_bbox = quad_from_xywh 100 100 200 20\<rparr>,
      \<lparr>t_text = ''OtherTraditionalForestDweller'', t_bbox = quad_from_xywh 100 300 300 20\<rparr>]
     \<lparr>checkboxes = [\<lparr>cb_bbox = quad_from_xywh 500 100 20 20, filled = True, near_label = None\<rparr>,
                    \<lparr>cb_bbox = quad_from_xywh 600 100 20 20, filled = False, near_label = None\<rparr>,
                    \<lparr>cb_bbox = quad_from_xywh 500 300 20 20, filled = True, near_label = None\<rparr>,
                    \<lparr>cb_bbox = quad_from_xywh 600 300 20 20, filled = False, near_label = None\<rparr>],
      signatures = []\<rparr>
   = (Some True, Some False) \<and>
   merge_document [blank_fields(Scheduled_tribe := PBool True), blank_fields(Otfd := PBool True)]
     = Inr (blank_fields(Scheduled_tribe := PBool True, Otfd := PBool False)) \<and>
   \<not> ((blank_fields(Scheduled_tribe := PBool True, Otfd := PBool False)) Scheduled_tribe = PBool True \<and>
      (blank_fields(Scheduled_tribe := PBool True, Otfd := PBool False)) Otfd = PBool True)"
  using exclusivity_invariant
    [of "\<lparr>pm_width = 1000, pm_height = 1400\<rparr>"
        "[\<lparr>t_text = ''ScheduledTribe'', t_bbox = quad_from_xywh 100 100 200 20\<rparr>,
          \<lparr>t_text = ''OtherTraditionalForestDweller'', t_bbox = quad_from_xywh 100 300 300 20\<rparr>]"
        "\<lparr>checkboxes = [\<lparr>cb_bbox = quad_from_xywh 500 100 20 20, filled = True, near_label = None\<rparr>,
                    \<lparr>cb_bbox = quad_from_xywh 600 100 20 20, filled = False, near_label = None\<rparr>,
                    \<lparr>cb_bbox = quad_from_xywh 500 300 20 20, filled = True, near_label = None\<rparr>,
                    \<lparr>cb_bbox = quad_from_xywh 600 300 20 20, filled = False, near_label = None\<rparr>],
      signatures = []\<rparr>"
        "[blank_fields(Scheduled_tribe := PBool True), blank_fields(Otfd := PBool True)]"]
  by (simp add: page_example merge_two_pages_example)

text \<open>
  The claim as stated, that a true \<^verbatim>\<open>scheduled_tribe\<close> makes \<^verbatim>\<open>otfd\<close> false, fails where
  \<^verbatim>\<open>otfd\<close> is unresolved: a page with the anchor and a checkbox pair for
  \<^verbatim>\<open>scheduled_tribe\<close> only resolves to \<^verbatim>\<open>scheduled_tribe = True\<close> and \<^verbatim>\<open>otfd = None\<close>, and
  so does the record merged from it.
\<close>

theorem exclusivity_counterexample:
  "extract_st_otfd \<lparr>pm_width = 1000, pm_height = 1400\<rparr>
     [\<lparr>t_text = ''ScheduledTribe'', t_bbox = quad_from_xywh 100 100 200 20\<rparr>]
     \<lparr>checkboxes = [\<lparr>cb_bbox = quad_from_xywh 500 100 20 20, filled = True, near_label = None\<rparr>,
                    \<lparr>cb_bbox = quad_from_xywh 600 100 20 20, filled = False, near_label = None\<rparr>],
      signatures = []\<rparr>
   = (Some True, None) \<and>
   merge_document [blank_fields(Scheduled_tribe := PBool True, Otfd := PNone)]
   = Inr (blank_fields(Scheduled_tribe := PBool True, Otfd := PNone))"
proof
  show "extract_st_otfd \<lparr>pm_width = 1000, pm_height = 1400\<rparr>
     [\<lparr>t_text = ''ScheduledTribe'', t_bbox = quad_from_xywh 100 100 200 20\<rparr>]
     \<lparr>checkboxes = [\<lparr>cb_bbox = quad_from_xywh 500 100 20 20, filled = True, near_label = None\<rparr>,
                    \<lparr>cb_bbox = quad_from_xywh 600 100 20 20, filled = False, near_label = None\<rparr>],
      signatures = []\<rparr>
   = (Some True, None)"
    by code_simp
next
  have "merge_pages blank_fields [blank_fields(Scheduled_tribe := PBool True, Otfd := PNone)]
        = Inr (blank_fields(Scheduled_tribe := PBool True, Otfd := PNone))"
    apply (simp add: merge_keys_all blank_fields_def)
    apply (rule ext)
    subgoal for k by (cases k) (simp_all add: pick_def)
    done
  then show "merge_document [blank_fields(Scheduled_tribe := PBool True, Otfd := PNone)]
   = Inr (blank_fields(Scheduled_tribe := PBool True, Otfd := PNone))"
    by (simp add: merge_document_def exclusivity_def blank_fields_def)
qed

end
